theory Spec2Isabelle
  imports Complex_Main
begin

section \<open>Conventions of the embedding\<close>

text \<open>
  Timestamps, delays and windows are C++ \<^verbatim>\<open>long long\<close> values counted in picoseconds.
  Signed overflow is undefined behaviour in C++, so the embedding gives them the type
  \<^typ>\<open>int\<close> and describes the executions in which every intermediate value stays in range.
  Sizes and indices (\<^verbatim>\<open>size_t\<close>) are \<^typ>\<open>nat\<close>. A \<^verbatim>\<open>std::span<const long long>\<close> is
  the list of the timestamps it shows. The conversion \<^verbatim>\<open>static_cast<int>\<close> of a
  \<^verbatim>\<open>long long\<close> is defined behaviour (reduction modulo \<open>2^32\<close>) and is written out.
\<close>

type_synonym Timestamp = int

datatype error = Invalid_argument string

text \<open>C++ integer division truncates towards zero.\<close>

definition cpp_div :: "int \<Rightarrow> int \<Rightarrow> int" where
  "cpp_div a b =
     (if (a < 0) = (b < 0) then \<bar>a\<bar> div \<bar>b\<bar> else - (\<bar>a\<bar> div \<bar>b\<bar>))"

definition static_cast_int :: "int \<Rightarrow> int" where
  "static_cast_int x = (x + 2147483648) mod 4294967296 - 2147483648"

definition INT_MIN :: int where
  "INT_MIN = - 2147483648"

definition LLONG_MIN :: int where
  "LLONG_MIN = - 9223372036854775808"

subsection \<open>Binary floating point\<close>

text \<open>
  A finite \<^verbatim>\<open>float\<close> or \<^verbatim>\<open>double\<close> is the rational number it denotes. Each operation
  is the exact operation followed by rounding to the nearest value with 24 (binary32) or
  53 (binary64) significant bits, ties to the even significand, as IEEE 754 prescribes.
  The scan only forms \<^verbatim>\<open>static_cast<float>(ps) / 1000\<close> for a 64-bit \<open>ps\<close>, whose
  magnitude is 0 or lies between \<open>0.001\<close> and \<open>2^63\<close>: no overflow, no subnormal, no NaN.
\<close>

type_synonym f32 = rat
type_synonym f64 = rat

definition pow2 :: "int \<Rightarrow> rat" where
  "pow2 e = (if 0 \<le> e then 2 ^ nat e else 1 / 2 ^ nat (- e))"

text \<open>The number of binary digits of a positive integer.\<close>

function bit_length :: "int \<Rightarrow> nat" where
  "bit_length n = (if n \<le> 0 then 0 else Suc (bit_length (n div 2)))"
  by pat_completeness auto
termination
  by (relation "measure nat") auto

declare bit_length.simps [simp del]

text \<open>For \<open>x > 0\<close>, the exponent \<open>e\<close> with \<open>2^e \<le> x < 2^(e+1)\<close>.\<close>

definition ilog2 :: "rat \<Rightarrow> int" where
  "ilog2 x =
     (let e0 = (if 1 \<le> x then int (bit_length \<lfloor>x\<rfloor>) - 1
                else 1 - int (bit_length \<lfloor>1 / x\<rfloor>))
      in if pow2 e0 \<le> x then e0 else e0 - 1)"

text \<open>Rounding of a non-negative rational to the nearest integer, ties to even.\<close>

definition round_half_even :: "rat \<Rightarrow> int" where
  "round_half_even q =
     (let f = \<lfloor>q\<rfloor>; r = q - of_int f
      in if r < 1 / 2 then f
         else if 1 / 2 < r then f + 1
         else if even f then f else f + 1)"

text \<open>Rounding to \<open>p\<close> significant bits.\<close>

definition round_to_precision :: "nat \<Rightarrow> rat \<Rightarrow> rat" where
  "round_to_precision p x =
     (if x = 0 then 0
      else let ulp = pow2 (ilog2 \<bar>x\<bar> - (int p - 1))
           in sgn x * of_int (round_half_even (\<bar>x\<bar> / ulp)) * ulp)"

definition f32_of_ll :: "int \<Rightarrow> f32" where
  "f32_of_ll n = round_to_precision 24 (of_int n)"

definition f32_div :: "f32 \<Rightarrow> f32 \<Rightarrow> f32" where
  "f32_div a b = round_to_precision 24 (a / b)"

definition f64_of_f32 :: "f32 \<Rightarrow> f64" where
  "f64_of_f32 x = x"

definition f64_of_ll :: "int \<Rightarrow> f64" where
  "f64_of_ll n = round_to_precision 53 (of_int n)"

definition f64_mul :: "f64 \<Rightarrow> f64 \<Rightarrow> f64" where
  "f64_mul a b = round_to_precision 53 (a * b)"

text \<open>\<^verbatim>\<open>std::llround\<close>: nearest integer, halfway cases away from zero.\<close>

definition llround :: "f64 \<Rightarrow> int" where
  "llround x = (if 0 \<le> x then \<lfloor>x + 1 / 2\<rfloor> else - \<lfloor>- x + 1 / 2\<rfloor>)"

definition kPicosecondsPerNanosecond :: int where
  "kPicosecondsPerNanosecond = 1000"

text \<open>The x-coordinate of a scan entry:
  \<^verbatim>\<open>static_cast<float>(delayPs) / kPicosecondsPerNanosecond\<close>; the integer constant is
  converted to \<^verbatim>\<open>float\<close> by the usual arithmetic conversions.\<close>

definition delay_ns :: "int \<Rightarrow> f32" where
  "delay_ns delayPs = f32_div (f32_of_ll delayPs) (f32_of_ll kPicosecondsPerNanosecond)"

section \<open>Coincidences.cpp\<close>

subsection \<open>buildConfig\<close>

record DelayScanConfig =
  startPs :: int
  endPs :: int
  stepPs :: int
  steps :: nat

definition buildConfig :: "int \<Rightarrow> int \<Rightarrow> int \<Rightarrow> error + DelayScanConfig" where
  "buildConfig delayStartPs delayEndPs delayStepPs =
     (if delayStepPs \<le> 0 then Inl (Invalid_argument ''delayStep must be positive in ps'')
      else if delayEndPs < delayStartPs then
        Inr \<lparr>startPs = delayStartPs, endPs = delayEndPs, stepPs = delayStepPs, steps = 0\<rparr>
      else
        Inr \<lparr>startPs = delayStartPs, endPs = delayEndPs, stepPs = delayStepPs,
             steps = nat (cpp_div (delayEndPs - delayStartPs) delayStepPs + 1)\<rparr>)"

subsection \<open>countCoincidencesWithDelay\<close>

function sweep_loop ::
  "Timestamp list \<Rightarrow> Timestamp list \<Rightarrow> int \<Rightarrow> int \<Rightarrow> nat \<Rightarrow> nat \<Rightarrow> int \<Rightarrow> int" where
  "sweep_loop ch1 ch2 coincWindowPs delayPs i j count =
     (if i < length ch1 \<and> j < length ch2 then
        (if (ch1 ! i - delayPs) - ch2 ! j < - coincWindowPs then
           sweep_loop ch1 ch2 coincWindowPs delayPs (i + 1) j count
         else if (ch1 ! i - delayPs) - ch2 ! j > coincWindowPs then
           sweep_loop ch1 ch2 coincWindowPs delayPs i (j + 1) count
         else sweep_loop ch1 ch2 coincWindowPs delayPs (i + 1) (j + 1) (count + 1))
      else count)"
  by pat_completeness auto
termination
  by (relation "measure (\<lambda>(ch1, ch2, w, d, i, j, c). (length ch1 - i) + (length ch2 - j))") auto

declare sweep_loop.simps [simp del]

definition countCoincidencesWithDelay ::
  "Timestamp list \<Rightarrow> Timestamp list \<Rightarrow> int \<Rightarrow> int \<Rightarrow> int" where
  "countCoincidencesWithDelay ch1 ch2 coincWindowPs delayPs =
     sweep_loop ch1 ch2 coincWindowPs delayPs 0 0 0"

text \<open>
  The consuming two-pointer sweep as the specification words it, on the views themselves:
  compare the two front elements, drop the front of \<open>A\<close> when \<open>diff < -w\<close>, the front of
  \<open>B\<close> when \<open>diff > w\<close>, otherwise record the match of the two fronts and drop both; stop
  when a view is exhausted. The result lists the matched index pairs in order.
\<close>

fun consuming_sweep ::
  "int \<Rightarrow> int \<Rightarrow> nat \<Rightarrow> nat \<Rightarrow> Timestamp list \<Rightarrow> Timestamp list \<Rightarrow> (nat \<times> nat) list" where
  "consuming_sweep w d i j [] B = []"
| "consuming_sweep w d i j (a # A) [] = []"
| "consuming_sweep w d i j (a # A) (b # B) =
     (if (a - d) - b < - w then consuming_sweep w d (Suc i) j A (b # B)
      else if (a - d) - b > w then consuming_sweep w d i (Suc j) (a # A) B
      else (i, j) # consuming_sweep w d (Suc i) (Suc j) A B)"

subsection \<open>appendNextFirstEvent\<close>





subsection \<open>countNFoldCoincidences\<close>

record Tagged =
  timestamp :: int
  channelIdx :: nat

definition merge_events :: "Timestamp list list \<Rightarrow> int list \<Rightarrow> Tagged list" where
  "merge_events channels offsetsPs =
     concat (map (\<lambda>idx. let offset = (if offsetsPs = [] then 0 else offsetsPs ! idx)
                         in map (\<lambda>ts. \<lparr>timestamp = ts + offset, channelIdx = idx\<rparr>) (channels ! idx))
                 [0..<length channels])"

text \<open>
  \<^verbatim>\<open>std::sort\<close> is called with the comparator \<^verbatim>\<open>a.timestamp < b.timestamp\<close>. The language
  standard fixes its result only so far: the output holds the elements of the input, each
  as often as the input does, and no element compares less than an earlier one. In which
  order events of equal timestamps come out is left to the library. The sort is therefore
  an argument \<open>std_sort\<close> of the embedding of \<open>countNFoldCoincidences\<close>, and
  \<open>std_sort_contract\<close> is all that is assumed of it.
\<close>

definition std_sort_result :: "Tagged list \<Rightarrow> Tagged list \<Rightarrow> bool" where
  "std_sort_result input output \<longleftrightarrow>
     (\<forall>e \<in> set input \<union> set output. count_list output e = count_list input e) \<and>
     sorted_wrt (\<lambda>a b. \<not> timestamp b < timestamp a) output"

definition std_sort_contract :: "(Tagged list \<Rightarrow> Tagged list) \<Rightarrow> bool" where
  "std_sort_contract std_sort \<longleftrightarrow> (\<forall>merged. std_sort_result merged (std_sort merged))"

text \<open>The inner \<^verbatim>\<open>while\<close> loop. \<open>have\<close> is a \<^verbatim>\<open>size_t\<close>, decremented only when a
  frequency drops from 1 to 0. It then is positive (lemmas \<open>count_inv_decrement\<close> and
  \<open>nfold_fold_count_inv\<close> below), so the subtraction on \<^typ>\<open>nat\<close> never truncates where
  the unsigned one would wrap.\<close>

function shrink_left ::
  "Tagged list \<Rightarrow> int \<Rightarrow> nat \<Rightarrow> int list \<times> nat \<times> nat \<Rightarrow> int list \<times> nat \<times> nat" where
  "shrink_left merged coincWindowPs right (freq, have, left) =
     (if timestamp (merged ! right) - timestamp (merged ! left) > coincWindowPs \<and> left < right
      then
        (let lidx = channelIdx (merged ! left);
             freq' = freq[lidx := freq ! lidx - 1];
             have' = (if freq' ! lidx = 0 then have - 1 else have)
         in shrink_left merged coincWindowPs right (freq', have', left + 1))
      else (freq, have, left))"
  by pat_completeness auto
termination
  by (relation "measure (\<lambda>(merged, w, right, freq, have, left). right - left)") auto

declare shrink_left.simps [simp del]

text \<open>One iteration of the \<^verbatim>\<open>for\<close> loop over \<open>right\<close>.\<close>

definition nfold_step ::
  "nat \<Rightarrow> Tagged list \<Rightarrow> int \<Rightarrow> nat \<Rightarrow> int list \<times> nat \<times> nat \<times> int
     \<Rightarrow> int list \<times> nat \<times> nat \<times> int" where
  "nfold_step K merged coincWindowPs right st =
     (case st of (freq, have, left, coincidences) \<Rightarrow>
        (let idx = channelIdx (merged ! right);
             freq1 = freq[idx := freq ! idx + 1];
             have1 = (if freq1 ! idx = 1 then have + 1 else have)
         in case shrink_left merged coincWindowPs right (freq1, have1, left) of
              (freq2, have2, left2) \<Rightarrow>
                if have2 = K then
                  (let lidx = channelIdx (merged ! left2);
                       freq3 = freq2[lidx := freq2 ! lidx - 1];
                       have3 = (if freq3 ! lidx = 0 then have2 - 1 else have2)
                   in (freq3, have3, left2 + 1, coincidences + 1))
                else (freq2, have2, left2, coincidences)))"

definition nfold_sweep :: "nat \<Rightarrow> Tagged list \<Rightarrow> int \<Rightarrow> int" where
  "nfold_sweep K merged coincWindowPs =
     (case fold (nfold_step K merged coincWindowPs) [0..<length merged]
             (replicate K 0, 0, 0, 0) of
        (freq, have, left, coincidences) \<Rightarrow> coincidences)"

text \<open>An absent \<open>offsetsPs\<close> is the default argument, the empty span.\<close>

definition countNFoldCoincidences ::
  "(Tagged list \<Rightarrow> Tagged list) \<Rightarrow> Timestamp list list \<Rightarrow> int \<Rightarrow> int list \<Rightarrow> error + int" where
  "countNFoldCoincidences std_sort channels coincWindowPs offsetsPs =
     (if length channels < 2 then
        Inl (Invalid_argument ''At least two channels required for coincidences'')
      else if offsetsPs \<noteq> [] \<and> length offsetsPs \<noteq> length channels then
        Inl (Invalid_argument ''offsets size must match channels size'')
      else if length channels = 2 \<and> offsetsPs = [] then
        Inr (countCoincidencesWithDelay (channels ! 0) (channels ! 1) coincWindowPs 0)
      else
        (let totalEvents = sum_list (map length channels)
         in if totalEvents = 0 then Inr 0
            else Inr (nfold_sweep (length channels)
                        (std_sort (merge_events channels offsetsPs)) coincWindowPs)))"

subsection \<open>computeCoincidencesForRange\<close>

type_synonym ScanResult = "(f32 \<times> int) list"

function advance_jLo :: "Timestamp list \<Rightarrow> int \<Rightarrow> nat \<Rightarrow> nat" where
  "advance_jLo channel2 lowCut jLo =
     (if jLo < length channel2 \<and> channel2 ! jLo < lowCut
      then advance_jLo channel2 lowCut (jLo + 1) else jLo)"
  by pat_completeness auto
termination
  by (relation "measure (\<lambda>(channel2, lowCut, jLo). length channel2 - jLo)") auto

declare advance_jLo.simps [simp del]

function advance_jHi :: "Timestamp list \<Rightarrow> int \<Rightarrow> nat \<Rightarrow> nat" where
  "advance_jHi channel2 highCut jHi =
     (if jHi < length channel2 \<and> channel2 ! jHi \<le> highCut
      then advance_jHi channel2 highCut (jHi + 1) else jHi)"
  by pat_completeness auto
termination
  by (relation "measure (\<lambda>(channel2, highCut, jHi). length channel2 - jHi)") auto

declare advance_jHi.simps [simp del]

text \<open>
  The body of the loop over \<open>j\<close> for one pair \<open>(t1, channel2[j])\<close>. Both offsets are
  non-negative where \<^verbatim>\<open>static_cast<size_t>\<close> is applied (the interval has been clipped to
  the grid), so the cast is \<^const>\<open>nat\<close>.
\<close>

definition accumulate_pair ::
  "DelayScanConfig \<Rightarrow> int \<Rightarrow> Timestamp \<Rightarrow> Timestamp \<Rightarrow> int list \<Rightarrow> int list" where
  "accumulate_pair config coincWindowPs t1 t2 diff =
     (let diffCenter = t1 - t2;
          intervalStart = diffCenter - coincWindowPs;
          intervalEnd = diffCenter + coincWindowPs
      in if intervalEnd < startPs config \<or> intervalStart > endPs config then diff
         else
           (let intervalStart' = max intervalStart (startPs config);
                intervalEnd' = min intervalEnd (endPs config);
                offsetStart = intervalStart' - startPs config;
                offsetEnd = intervalEnd' - startPs config;
                idxStart = nat (cpp_div (offsetStart + stepPs config - 1) (stepPs config));
                idxEnd = nat (cpp_div offsetEnd (stepPs config))
            in if idxStart > idxEnd \<or> idxEnd \<ge> steps config then diff
               else
                 (let diff1 = diff[idxStart := diff ! idxStart + 1]
                  in diff1[idxEnd + 1 := diff1 ! (idxEnd + 1) - 1])))"

text \<open>One iteration of the loop over \<open>channel1\<close>, on the state \<open>(jLo, jHi, diff)\<close>.\<close>

definition scan_step ::
  "DelayScanConfig \<Rightarrow> int \<Rightarrow> Timestamp list \<Rightarrow> Timestamp \<Rightarrow> nat \<times> nat \<times> int list
     \<Rightarrow> nat \<times> nat \<times> int list" where
  "scan_step config coincWindowPs channel2 t1 st =
     (case st of (jLo, jHi, diff) \<Rightarrow>
        (let minNeeded = startPs config - coincWindowPs;
             maxNeeded = endPs config + coincWindowPs;
             lowCut = t1 - maxNeeded;
             jLo' = advance_jLo channel2 lowCut jLo;
             highCut = t1 - minNeeded;
             jHi' = advance_jHi channel2 highCut (if jHi < jLo' then jLo' else jHi);
             diff' = fold (\<lambda>j. accumulate_pair config coincWindowPs t1 (channel2 ! j))
                       [jLo'..<jHi'] diff
         in (jLo', jHi', diff')))"

definition scan_channel1 ::
  "DelayScanConfig \<Rightarrow> int \<Rightarrow> Timestamp list \<Rightarrow> Timestamp list \<Rightarrow> nat \<times> nat \<times> int list
     \<Rightarrow> nat \<times> nat \<times> int list" where
  "scan_channel1 config coincWindowPs channel2 channel1 st =
     fold (scan_step config coincWindowPs channel2) channel1 st"

text \<open>The two loops that fill \<open>results\<close>: zero counts, and the prefix sums of \<open>diff\<close>.\<close>

definition fill_zero :: "DelayScanConfig \<Rightarrow> ScanResult \<Rightarrow> ScanResult" where
  "fill_zero config results =
     fold (\<lambda>idx res. res[idx := (delay_ns (startPs config + int idx * stepPs config), 0)])
       [0..<steps config] results"

definition fill_prefix_sums :: "DelayScanConfig \<Rightarrow> int list \<Rightarrow> ScanResult \<Rightarrow> int \<times> ScanResult" where
  "fill_prefix_sums config diff results =
     fold (\<lambda>idx (running, res).
             (let running' = running + diff ! idx;
                  delayPs = startPs config + int idx * stepPs config
              in (running', res[idx := (delay_ns delayPs, static_cast_int running')])))
       [0..<steps config] (0, results)"

text \<open>
  \<open>results\<close> is the caller's vector, passed by reference: the function returns its final
  content together with the outcome (\<open>Inl\<close> for the exception thrown by \<open>buildConfig\<close>).
\<close>

definition computeCoincidencesForRange ::
  "Timestamp list \<Rightarrow> Timestamp list \<Rightarrow> int \<Rightarrow> int \<Rightarrow> int \<Rightarrow> int \<Rightarrow> ScanResult
     \<Rightarrow> (error + unit) \<times> ScanResult" where
  "computeCoincidencesForRange channel1 channel2 coincWindowPs delayStartPs delayEndPs
       delayStepPs results =
     (let results1 = [] :: ScanResult
      in case buildConfig delayStartPs delayEndPs delayStepPs of
           Inl err \<Rightarrow> (Inl err, results1)
         | Inr config \<Rightarrow>
             if steps config = 0 then (Inr (), results1)
             else
               (let results2 = replicate (steps config) (0, 0)
                in if channel1 = [] \<or> channel2 = [] then (Inr (), fill_zero config results2)
                   else
                     (case scan_channel1 config coincWindowPs channel2 channel1
                             (0, 0, replicate (steps config + 1) 0) of
                        (jLo, jHi, diff) \<Rightarrow>
                          (Inr (), snd (fill_prefix_sums config diff results2)))))"

subsection \<open>findBestDelayPicoseconds\<close>

definition best_entry :: "int \<times> int \<Rightarrow> ScanResult \<Rightarrow> int \<times> int" where
  "best_entry init results =
     fold (\<lambda>entry (bestDelayPs, bestCount).
             (let delayPs = llround (f64_mul (f64_of_f32 (fst entry))
                                       (f64_of_ll kPicosecondsPerNanosecond))
              in if snd entry > bestCount then (delayPs, snd entry)
                 else (bestDelayPs, bestCount)))
       results init"

text \<open>\<open>results\<close> is the content of the vector the scan writes to: the caller's scratch
  vector when one is given, a local empty vector otherwise.\<close>

definition findBestDelayPicoseconds ::
  "Timestamp list \<Rightarrow> Timestamp list \<Rightarrow> int \<Rightarrow> int \<Rightarrow> int \<Rightarrow> int \<Rightarrow> ScanResult
     \<Rightarrow> (error + int) \<times> ScanResult" where
  "findBestDelayPicoseconds reference target coincWindowPs delayStartPs delayEndPs
       delayStepPs results =
     (case computeCoincidencesForRange reference target coincWindowPs delayStartPs delayEndPs
             delayStepPs results of
        (Inl err, results') \<Rightarrow> (Inl err, results')
      | (Inr u, results') \<Rightarrow> (Inr (fst (best_entry (delayStartPs, INT_MIN) results')), results'))"

section \<open>Singles.h\<close>

record Singles =
  channel :: int
  baseSecond :: int
  eventsPerSecond :: "Timestamp list list"

text \<open>A default-constructed \<open>Singles\<close>.\<close>

definition Singles_default :: Singles where
  "Singles_default = \<lparr>channel = 0, baseSecond = 0, eventsPerSecond = []\<rparr>"

text \<open>
  \<open>ensureSecond\<close> returns a reference to a bucket of the \<open>Singles\<close> it has grown: the
  embedding returns the grown \<open>Singles\<close> and the index of that bucket.
\<close>

definition ensureSecond :: "Singles \<Rightarrow> int \<Rightarrow> Singles \<times> nat" where
  "ensureSecond singles second =
     (if eventsPerSecond singles = [] then
        (singles\<lparr>baseSecond := second, eventsPerSecond := [[]]\<rparr>, 0)
      else if second < baseSecond singles then
        (let prepend = nat (baseSecond singles - second)
         in (singles\<lparr>eventsPerSecond := replicate prepend [] @ eventsPerSecond singles,
                      baseSecond := second\<rparr>, 0))
      else
        (let maxSecond = baseSecond singles + int (length (eventsPerSecond singles)) - 1;
             grown = (if second > maxSecond then
                        (let newSize = nat (second - baseSecond singles + 1)
                         in eventsPerSecond singles
                              @ replicate (newSize - length (eventsPerSecond singles)) [])
                      else eventsPerSecond singles)
         in (singles\<lparr>eventsPerSecond := grown\<rparr>, nat (second - baseSecond singles))))"

definition eventsForSecond :: "Singles \<Rightarrow> int \<Rightarrow> Timestamp list" where
  "eventsForSecond singles second =
     (if eventsPerSecond singles = [] \<or> second < baseSecond singles then []
      else (let idx = nat (second - baseSecond singles)
            in if idx < length (eventsPerSecond singles) then eventsPerSecond singles ! idx
               else []))"

section \<open>ReadCSV.cpp\<close>

text \<open>\<^verbatim>\<open>std::upper_bound\<close> on a sorted range: the position of the first element greater
  than \<open>ts\<close>.\<close>

definition upper_bound :: "Timestamp list \<Rightarrow> Timestamp \<Rightarrow> nat" where
  "upper_bound bucket ts = length (takeWhile (\<lambda>x. \<not> ts < x) bucket)"

definition appendTimestamp :: "Singles \<Rightarrow> int \<Rightarrow> Timestamp \<Rightarrow> Singles" where
  "appendTimestamp singles second ts =
     (case ensureSecond singles second of (singles', idx) \<Rightarrow>
        (let bucket = eventsPerSecond singles' ! idx;
             bucket' = (if bucket \<noteq> [] \<and> ts < last bucket then
                          (let pos = upper_bound bucket ts
                           in take pos bucket @ [ts] @ drop pos bucket)
                        else bucket @ [ts])
         in singles'\<lparr>eventsPerSecond := (eventsPerSecond singles')[idx := bucket']\<rparr>))"

section \<open>RollingSingles.cpp\<close>

text \<open>
  The two \<^verbatim>\<open>std::map\<close> members are maps from the channel number. A chunk, a
  \<^verbatim>\<open>const std::map<int, Singles> &\<close> that is only iterated, is the list of its entries in
  iteration order. The members carry the suffix \<open>_m\<close> in place of the trailing underscore.
\<close>

record RollingSingles =
  channels_m :: "int \<rightharpoonup> Singles"
  latestChunks_m :: "int \<rightharpoonup> Timestamp list list"
  windowSeconds_m :: int
  latestSecond_m :: int

definition RollingSingles_init :: "int \<Rightarrow> RollingSingles" where
  "RollingSingles_init windowSeconds =
     \<lparr>channels_m = Map.empty, latestChunks_m = Map.empty,
      windowSeconds_m = windowSeconds, latestSecond_m = LLONG_MIN\<rparr>"

text \<open>The body of the loop of \<open>prune\<close> for one entry of \<open>channels_m\<close>.\<close>

definition prune_entry :: "int \<Rightarrow> Singles \<Rightarrow> Singles" where
  "prune_entry minSecond s =
     (if eventsPerSecond s = [] then s
      else
        (let maxSecond = baseSecond s + int (length (eventsPerSecond s)) - 1
         in if maxSecond < minSecond then s
            else if baseSecond s \<ge> minSecond then s
            else
              (let dropCount = minSecond - baseSecond s
               in if dropCount \<le> 0 then s
                  else if nat dropCount \<ge> length (eventsPerSecond s) then
                    s\<lparr>eventsPerSecond := []\<rparr>
                  else
                    s\<lparr>eventsPerSecond := drop (nat dropCount) (eventsPerSecond s),
                      baseSecond := minSecond\<rparr>)))"

definition prune :: "RollingSingles \<Rightarrow> RollingSingles" where
  "prune r =
     (if latestSecond_m r = LLONG_MIN then r
      else
        (let minSecond = latestSecond_m r - windowSeconds_m r + 1
         in r\<lparr>channels_m := (\<lambda>ch. map_option (prune_entry minSecond) (channels_m r ch))\<rparr>))"

text \<open>One iteration of the loop over the buckets of an incoming \<open>Singles\<close>, on the state
  \<open>(target, latestSecond_m)\<close>.\<close>

definition append_bucket :: "Singles \<Rightarrow> nat \<Rightarrow> Singles \<times> int \<Rightarrow> Singles \<times> int" where
  "append_bucket incoming idx st =
     (case st of (target, latest) \<Rightarrow>
        (let second = baseSecond incoming + int idx;
             latest' = max latest second
         in case ensureSecond target second of (target', b) \<Rightarrow>
              (let src = eventsPerSecond incoming ! idx;
                   bucket = eventsPerSecond target' ! b
               in (target'\<lparr>eventsPerSecond := (eventsPerSecond target')[b := bucket @ src]\<rparr>,
                   latest'))))"

text \<open>One iteration of the loop over the entries of the chunk.\<close>

definition append_entry :: "int \<times> Singles \<Rightarrow> RollingSingles \<Rightarrow> RollingSingles" where
  "append_entry entry r =
     (case entry of (ch, incoming) \<Rightarrow>
        if eventsPerSecond incoming = [] then r
        else
          (let target0 = (case channels_m r ch of None \<Rightarrow> Singles_default | Some s \<Rightarrow> s);
               target1 = (if eventsPerSecond target0 = []
                          then target0\<lparr>channel := channel incoming\<rparr> else target0)
           in case fold (append_bucket incoming) [0..<length (eventsPerSecond incoming)]
                     (target1, latestSecond_m r) of
                (target2, latest) \<Rightarrow>
                  r\<lparr>channels_m := (channels_m r)(ch \<mapsto> target2),
                    latestChunks_m := (latestChunks_m r)(ch \<mapsto> eventsPerSecond incoming),
                    latestSecond_m := latest\<rparr>))"

definition appendChunk :: "(int \<times> Singles) list \<Rightarrow> RollingSingles \<Rightarrow> RollingSingles" where
  "appendChunk chunk r = prune (fold append_entry chunk r)"

definition setWindow :: "int \<Rightarrow> RollingSingles \<Rightarrow> RollingSingles" where
  "setWindow seconds r = prune (r\<lparr>windowSeconds_m := max 1 seconds\<rparr>)"

definition channelSingles :: "RollingSingles \<Rightarrow> int \<Rightarrow> Singles" where
  "channelSingles r ch = (case channels_m r ch of None \<Rightarrow> Singles_default | Some s \<Rightarrow> s)"

section \<open>Notions used in the proofs\<close>

text \<open>
  The invariant of the N-fold sweep when channel \<open>k0\<close> has no event: \<open>have\<close> is the
  number of channels with a positive frequency, and the frequency of \<open>k0\<close> is 0.
\<close>

definition present :: "nat \<Rightarrow> int list \<Rightarrow> nat set" where
  "present K freq = {k. k < K \<and> 1 \<le> freq ! k}"

definition sweep_inv :: "nat \<Rightarrow> nat \<Rightarrow> int list \<Rightarrow> nat \<Rightarrow> bool" where
  "sweep_inv K k0 freq have \<longleftrightarrow>
     length freq = K \<and> have = card (present K freq) \<and> k0 < K \<and> freq ! k0 = 0"

text \<open>The part of that invariant that holds on every input.\<close>

definition count_inv :: "nat \<Rightarrow> int list \<Rightarrow> nat \<Rightarrow> bool" where
  "count_inv K freq have \<longleftrightarrow> length freq = K \<and> have = card (present K freq)"

text \<open>
  The brute-force count of the specification: the number of index pairs \<open>(i, j)\<close> with
  \<open>|A[i] - d - B[j]| \<le> w\<close>.
\<close>

definition brute_force_count :: "Timestamp list \<Rightarrow> Timestamp list \<Rightarrow> int \<Rightarrow> int \<Rightarrow> int" where
  "brute_force_count A B w d =
     int (length (filter (\<lambda>(i, j). \<bar>A ! i - d - B ! j\<bar> \<le> w)
                    (List.product [0..<length A] [0..<length B])))"

text \<open>
  The same count as a double sum of indicators, the prefix sum of the difference array
  through index \<open>k\<close>, and the well-formed configurations of a non-empty grid.
\<close>

definition psum :: "int list \<Rightarrow> nat \<Rightarrow> int" where
  "psum diff k = sum_list (take (Suc k) diff)"

definition hit :: "int \<Rightarrow> int \<Rightarrow> Timestamp \<Rightarrow> Timestamp \<Rightarrow> int" where
  "hit w d a b = (if \<bar>a - d - b\<bar> \<le> w then 1 else 0)"

definition grid_ok :: "DelayScanConfig \<Rightarrow> bool" where
  "grid_ok config \<longleftrightarrow>
     0 < stepPs config \<and> startPs config \<le> endPs config \<and>
     steps config = nat ((endPs config - startPs config) div stepPs config + 1)"

definition cross_sum :: "Timestamp list \<Rightarrow> Timestamp list \<Rightarrow> int \<Rightarrow> int \<Rightarrow> int" where
  "cross_sum A B w d = (\<Sum>a\<leftarrow>A. \<Sum>b\<leftarrow>B. hit w d a b)"

text \<open>
  Sortedness of the buckets of one channel and of every stored channel, and the condition
  under which a chunk extends the stored buckets in time order: for every incoming slice,
  the stored bucket of that slice followed by the incoming bucket is non-decreasing.
\<close>

definition buckets_sorted :: "Singles \<Rightarrow> bool" where
  "buckets_sorted s \<longleftrightarrow> (\<forall>b \<in> set (eventsPerSecond s). sorted b)"

definition rolling_sorted :: "RollingSingles \<Rightarrow> bool" where
  "rolling_sorted r \<longleftrightarrow> (\<forall>ch s. channels_m r ch = Some s \<longrightarrow> buckets_sorted s)"

definition chunk_in_order :: "RollingSingles \<Rightarrow> (int \<times> Singles) list \<Rightarrow> bool" where
  "chunk_in_order r chunk \<longleftrightarrow>
     (\<forall>(ch, incoming) \<in> set chunk. \<forall>idx < length (eventsPerSecond incoming).
        sorted (eventsForSecond (channelSingles r ch) (baseSecond incoming + int idx)
                  @ eventsPerSecond incoming ! idx))"

chapter \<open>Properties\<close>

section \<open>The fixed-delay sweep\<close>

lemma sweep_loop_consuming:
  "i \<le> length A \<Longrightarrow> j \<le> length B \<Longrightarrow>
   sweep_loop A B w d i j c = c + int (length (consuming_sweep w d i j (drop i A) (drop j B)))"
proof (induction A B w d i j c rule: sweep_loop.induct)
  case (1 ch1 ch2 w d i j c)
  show ?case
  proof (cases "i < length ch1 \<and> j < length ch2")
    case True
    then have dA: "drop i ch1 = ch1 ! i # drop (Suc i) ch1"
      and dB: "drop j ch2 = ch2 ! j # drop (Suc j) ch2"
      by (simp_all add: Cons_nth_drop_Suc)
    from True have le: "Suc i \<le> length ch1" "Suc j \<le> length ch2" by simp_all
    show ?thesis
    proof (cases "(ch1 ! i - d) - ch2 ! j < - w")
      case lt: True
      with True "1.IH"(1) le "1.prems" show ?thesis
        by (subst sweep_loop.simps) (simp add: dA dB)
    next
      case nlt: False
      show ?thesis
      proof (cases "(ch1 ! i - d) - ch2 ! j > w")
        case gt: True
        with True nlt "1.IH"(2) le "1.prems" show ?thesis
          by (subst sweep_loop.simps) (simp add: dA dB)
      next
        case ngt: False
        with True nlt "1.IH"(3) le show ?thesis
          by (subst sweep_loop.simps) (simp add: dA dB)
      qed
    qed
  next
    case False
    then have "drop i ch1 = [] \<or> drop j ch2 = []" by auto
    then have "consuming_sweep w d i j (drop i ch1) (drop j ch2) = []"
      by (cases "drop i ch1") auto
    moreover from False have "sweep_loop ch1 ch2 w d i j c = c"
      by (subst sweep_loop.simps) (simp only: if_False)
    ultimately show ?thesis by simp
  qed
qed

lemma consuming_sweep_matches:
  "(i, j) \<in> set (consuming_sweep w d i0 j0 A B) \<Longrightarrow>
   i0 \<le> i \<and> i < i0 + length A \<and> j0 \<le> j \<and> j < j0 + length B \<and>
   \<bar>A ! (i - i0) - d - B ! (j - j0)\<bar> \<le> w"
proof (induction w d i0 j0 A B rule: consuming_sweep.induct)
  case (3 w d i0 j0 a A b B)
  show ?case
  proof (cases "(a - d) - b < - w")
    case True
    with 3 have "(i, j) \<in> set (consuming_sweep w d (Suc i0) j0 A (b # B))" by simp
    from "3.IH"(1)[OF True this] show ?thesis by (auto simp: Suc_diff_Suc less_eq_Suc_le)
  next
    case nlt: False
    show ?thesis
    proof (cases "(a - d) - b > w")
      case True
      with nlt 3 have "(i, j) \<in> set (consuming_sweep w d i0 (Suc j0) (a # A) B)" by simp
      from "3.IH"(2)[OF nlt True this] show ?thesis by (auto simp: Suc_diff_Suc less_eq_Suc_le)
    next
      case False
      with nlt "3.prems" consider "i = i0" "j = j0"
        | "(i, j) \<in> set (consuming_sweep w d (Suc i0) (Suc j0) A B)" by auto
      then show ?thesis
      proof cases
        case 1
        with nlt False show ?thesis by simp
      next
        case 2
        from "3.IH"(3)[OF nlt False 2] show ?thesis by (auto simp: Suc_diff_Suc less_eq_Suc_le)
      qed
    qed
  qed
qed simp_all

lemma consuming_sweep_lower:
  "(i, j) \<in> set (consuming_sweep w d i0 j0 A B) \<Longrightarrow> i0 \<le> i \<and> j0 \<le> j"
  using consuming_sweep_matches by blast

lemma consuming_sweep_increasing:
  "sorted_wrt (<) (map fst (consuming_sweep w d i0 j0 A B)) \<and>
   sorted_wrt (<) (map snd (consuming_sweep w d i0 j0 A B))"
proof (induction w d i0 j0 A B rule: consuming_sweep.induct)
  case (3 w d i0 j0 a A b B)
  have "\<forall>p \<in> set (consuming_sweep w d (Suc i0) (Suc j0) A B). i0 < fst p \<and> j0 < snd p"
    using consuming_sweep_lower[of _ _ w d "Suc i0" "Suc j0" A B] by (auto simp: Suc_le_eq)
  with 3 show ?case by auto
qed simp_all

text \<open>
  Claim C5. \<open>countCoincidencesWithDelay\<close> returns the number of matches of the consuming
  two-pointer sweep: the sweep's matches are index pairs inside the window, no index of
  either view occurs in two matches, and an empty view gives the count 0.
\<close>

theorem C5_pair_counter_is_consuming_sweep:
  "countCoincidencesWithDelay A B w d = int (length (consuming_sweep w d 0 0 A B)) \<and>
   (\<forall>(i, j) \<in> set (consuming_sweep w d 0 0 A B).
       i < length A \<and> j < length B \<and> \<bar>A ! i - d - B ! j\<bar> \<le> w) \<and>
   distinct (map fst (consuming_sweep w d 0 0 A B)) \<and>
   distinct (map snd (consuming_sweep w d 0 0 A B)) \<and>
   countCoincidencesWithDelay [] B w d = 0 \<and>
   countCoincidencesWithDelay A [] w d = 0"
proof -
  have a: "countCoincidencesWithDelay A B w d = int (length (consuming_sweep w d 0 0 A B))" for A B
    using sweep_loop_consuming[of 0 A 0 B w d 0] by (simp add: countCoincidencesWithDelay_def)
  have b: "\<forall>(i, j) \<in> set (consuming_sweep w d 0 0 A B).
       i < length A \<and> j < length B \<and> \<bar>A ! i - d - B ! j\<bar> \<le> w"
    using consuming_sweep_matches[of _ _ w d 0 0 A B] by auto
  have c: "distinct (map fst (consuming_sweep w d 0 0 A B))"
    "distinct (map snd (consuming_sweep w d 0 0 A B))"
    using consuming_sweep_increasing[of w d 0 0 A B] strict_sorted_iff
    by (auto simp: strict_sorted_iff)
  have e: "consuming_sweep w d 0 0 A [] = []" by (cases A) simp_all
  show ?thesis using a[of A B] a[of "[]" B] a[of A "[]"] b c e by simp
qed

theorem C5_pair_counter_is_consuming_sweep_witness:
  "countCoincidencesWithDelay [0, 10] [5] 6 0 = 1 \<and> consuming_sweep 6 0 0 0 [0, 10] [5] = [(0, 0)]"
  using C5_pair_counter_is_consuming_sweep[of "[0, 10]" "[5]" 6 0] by simp

section \<open>Invalid input\<close>

lemma computeCoincidencesForRange_bad_step:
  "delayStepPs \<le> 0 \<Longrightarrow>
   computeCoincidencesForRange channel1 channel2 w delayStartPs delayEndPs delayStepPs results =
     (Inl (Invalid_argument ''delayStep must be positive in ps''), [])"
  by (simp add: computeCoincidencesForRange_def buildConfig_def)

lemma computeCoincidencesForRange_good_step:
  "0 < delayStepPs \<Longrightarrow>
   fst (computeCoincidencesForRange channel1 channel2 w delayStartPs delayEndPs delayStepPs
          results) = Inr ()"
  by (simp add: computeCoincidencesForRange_def buildConfig_def Let_def split: prod.splits)

lemma computeCoincidencesForRange_empty_grid:
  "0 < delayStepPs \<Longrightarrow> delayEndPs < delayStartPs \<Longrightarrow>
   computeCoincidencesForRange channel1 channel2 w delayStartPs delayEndPs delayStepPs results =
     (Inr (), [])"
  by (simp add: computeCoincidencesForRange_def buildConfig_def)

text \<open>
  Claim C7. The delay scan fails with \<open>std::invalid_argument\<close> exactly when the step is
  not positive; a positive step with \<open>end_ps < start_ps\<close> gives the empty result and no
  error; \<open>countNFoldCoincidences\<close> fails with \<open>std::invalid_argument\<close> exactly when there are
  fewer than two channels or a non-empty offsets list of another length than the channels
  (the checks come before the sort, so this holds whatever \<open>std_sort\<close> is).
\<close>

theorem C7_invalid_input_exactly:
  "((\<exists>msg. fst (computeCoincidencesForRange A B w start_ps end_ps step_ps results)
             = Inl (Invalid_argument msg)) \<longleftrightarrow> step_ps \<le> 0) \<and>
   (0 < step_ps \<and> end_ps < start_ps \<longrightarrow>
      computeCoincidencesForRange A B w start_ps end_ps step_ps results = (Inr (), [])) \<and>
   ((\<exists>msg. countNFoldCoincidences std_sort channels w offsetsPs = Inl (Invalid_argument msg)) \<longleftrightarrow>
      length channels < 2 \<or> (offsetsPs \<noteq> [] \<and> length offsetsPs \<noteq> length channels))"
proof -
  have scan: "(\<exists>msg. fst (computeCoincidencesForRange A B w start_ps end_ps step_ps results)
             = Inl (Invalid_argument msg)) \<longleftrightarrow> step_ps \<le> 0"
  proof (cases "step_ps \<le> 0")
    case True
    then show ?thesis by (simp add: computeCoincidencesForRange_bad_step)
  next
    case False
    then show ?thesis by (simp add: computeCoincidencesForRange_good_step)
  qed
  have nfold: "(\<exists>msg. countNFoldCoincidences std_sort channels w offsetsPs = Inl (Invalid_argument msg)) \<longleftrightarrow>
      length channels < 2 \<or> (offsetsPs \<noteq> [] \<and> length offsetsPs \<noteq> length channels)"
    by (auto simp: countNFoldCoincidences_def Let_def)
  show ?thesis using scan nfold computeCoincidencesForRange_empty_grid by blast
qed

theorem C7_invalid_input_exactly_witness:
  "computeCoincidencesForRange [1] [2] 5 10 0 3 [] = (Inr (), []) \<and>
   (\<exists>msg. fst (computeCoincidencesForRange [1] [2] 5 0 10 0 []) = Inl (Invalid_argument msg)) \<and>
   (\<exists>msg. countNFoldCoincidences (sort_key timestamp) [[1]] 5 [] = Inl (Invalid_argument msg)) \<and>
   (\<exists>msg. countNFoldCoincidences (sort_key timestamp) [[1], [2]] 5 [0]
            = Inl (Invalid_argument msg))"
  using C7_invalid_input_exactly[of "[1]" "[2]" 5 10 0 3 "[]" "sort_key timestamp" "[[1]]" "[]"]
        C7_invalid_input_exactly[of "[1]" "[2]" 5 0 10 0 "[]" "sort_key timestamp" "[[1], [2]]" "[0]"]
  by simp

text \<open>
  Claim C9. When the step is rejected, the caller's \<open>results\<close> vector has already been
  cleared: the failure leaves it empty, whatever it held.
\<close>

theorem C9_results_cleared_before_failure:
  "step_ps \<le> 0 \<Longrightarrow>
   computeCoincidencesForRange A B w start_ps end_ps step_ps results =
     (Inl (Invalid_argument ''delayStep must be positive in ps''), [])"
  by (rule computeCoincidencesForRange_bad_step)

theorem C9_results_cleared_before_failure_witness:
  "computeCoincidencesForRange [1] [2] 5 0 10 0 [(1, 7), (2, 9)] =
     (Inl (Invalid_argument ''delayStep must be positive in ps''), [])"
  using C9_results_cleared_before_failure[of 0 "[1]" "[2]" 5 0 10 "[(1, 7), (2, 9)]"] by simp

section \<open>The bucket edge\<close>



section \<open>The library sort\<close>

text \<open>
  What the sweep's proofs use of \<open>std_sort_contract\<close>, and two facts on the contract itself:
  insertion sort by the timestamp meets it, and on events of pairwise different timestamps
  it leaves one result only.
\<close>

lemma count_list_sort_key: "count_list (sort_key f xs) e = count_list xs e"
  by (simp add: count_list_eq_length_filter filter_sort)

lemma sorted_wrt_timestamp:
  "sorted_wrt (\<lambda>a b. \<not> timestamp b < timestamp a) ys \<longleftrightarrow> sorted (map timestamp ys)"
  by (simp add: sorted_map not_less)


lemma std_sort_result_set:
  assumes "std_sort_result xs ys"
  shows "set ys = set xs"
proof -
  from assms have eq: "\<And>e. e \<in> set xs \<union> set ys \<Longrightarrow> count_list ys e = count_list xs e"
    by (simp add: std_sort_result_def)
  have "e \<in> set ys \<longleftrightarrow> e \<in> set xs" for e
    using eq[of e] count_list_0_iff[of xs e] count_list_0_iff[of ys e] by auto
  then show ?thesis by blast
qed


lemma std_sort_contract_sort_key: "std_sort_contract (sort_key timestamp)"
  by (simp add: std_sort_contract_def std_sort_result_def count_list_sort_key
      sorted_wrt_timestamp)

lemma std_sort_contract_set:
  assumes "std_sort_contract std_sort"
  shows "set (std_sort xs) = set xs"
  using assms std_sort_result_set by (simp add: std_sort_contract_def)




section \<open>An empty channel in the N-fold sweep\<close>

lemma finite_present: "finite (present K freq)"
  by (simp add: present_def)

lemma sweep_inv_increment:
  assumes "sweep_inv K k0 freq have" "idx < K" "idx \<noteq> k0"
  shows "sweep_inv K k0 (freq[idx := freq ! idx + 1])
           (if (freq[idx := freq ! idx + 1]) ! idx = 1 then have + 1 else have)"
proof -
  let ?freq' = "freq[idx := freq ! idx + 1]"
  from assms have len: "length freq = K" and h: "have = card (present K freq)"
    and k0: "k0 < K" "freq ! k0 = 0"
    by (simp_all add: sweep_inv_def)
  have at: "?freq' ! idx = freq ! idx + 1" using len assms(2) by simp
  have other: "k \<noteq> idx \<Longrightarrow> ?freq' ! k = freq ! k" for k by simp
  show ?thesis
  proof (cases "freq ! idx = 0")
    case True
    have "present K ?freq' = insert idx (present K freq)"
      using True assms(2) len by (auto simp: present_def nth_list_update)
    moreover have "idx \<notin> present K freq" using True by (simp add: present_def)
    ultimately have "card (present K ?freq') = have + 1"
      using h finite_present by simp
    with True at len k0 assms(3) show ?thesis by (simp add: sweep_inv_def)
  next
    case False
    have "present K ?freq' = present K freq"
    proof -
      have "1 \<le> ?freq' ! k \<longleftrightarrow> 1 \<le> freq ! k" for k
        using False at other[of k] by (cases "k = idx") auto
      then show ?thesis by (simp add: present_def)
    qed
    with False at len k0 h assms(3) show ?thesis by (simp add: sweep_inv_def)
  qed
qed

lemma sweep_inv_decrement:
  assumes "sweep_inv K k0 freq have" "idx < K" "idx \<noteq> k0"
  shows "sweep_inv K k0 (freq[idx := freq ! idx - 1])
           (if (freq[idx := freq ! idx - 1]) ! idx = 0 then have - 1 else have)"
proof -
  let ?freq' = "freq[idx := freq ! idx - 1]"
  from assms have len: "length freq = K" and h: "have = card (present K freq)"
    and k0: "k0 < K" "freq ! k0 = 0"
    by (simp_all add: sweep_inv_def)
  have at: "?freq' ! idx = freq ! idx - 1" using len assms(2) by simp
  have other: "k \<noteq> idx \<Longrightarrow> ?freq' ! k = freq ! k" for k by simp
  show ?thesis
  proof (cases "freq ! idx = 1")
    case True
    have "present K ?freq' = present K freq - {idx}"
      using True len assms(2) by (auto simp: present_def nth_list_update split: if_splits)
    moreover have "idx \<in> present K freq" using True assms(2) by (simp add: present_def)
    ultimately have "card (present K ?freq') = have - 1"
      using h by (simp add: card_Diff_singleton)
    with True at len k0 assms(3) show ?thesis by (simp add: sweep_inv_def)
  next
    case False
    have "present K ?freq' = present K freq"
    proof -
      have "1 \<le> ?freq' ! k \<longleftrightarrow> 1 \<le> freq ! k" for k
        using False at other[of k] by (cases "k = idx") auto
      then show ?thesis by (simp add: present_def)
    qed
    with False at len k0 h assms(3) show ?thesis by (simp add: sweep_inv_def)
  qed
qed

text \<open>The decrement of \<open>have\<close> happens at a positive value only.\<close>

lemma sweep_inv_have_positive:
  assumes "sweep_inv K k0 freq have" "idx < K" "(freq[idx := freq ! idx - 1]) ! idx = 0"
  shows "0 < have"
proof -
  from assms have "freq ! idx = 1" by (simp add: sweep_inv_def)
  with assms(2) have "idx \<in> present K freq" by (simp add: present_def)
  then have "0 < card (present K freq)" using finite_present card_gt_0_iff by blast
  with assms(1) show ?thesis by (simp add: sweep_inv_def)
qed

lemma sweep_inv_have_less:
  assumes "sweep_inv K k0 freq have"
  shows "have < K"
proof -
  from assms have k0: "k0 < K" "freq ! k0 = 0" and h: "have = card (present K freq)"
    by (simp_all add: sweep_inv_def)
  have "present K freq \<subseteq> {..<K} - {k0}" using k0 by (auto simp: present_def)
  then have "card (present K freq) \<le> card ({..<K} - {k0})"
    by (intro card_mono) simp_all
  also have "\<dots> = K - 1" using k0 by simp
  finally show ?thesis using h k0 by simp
qed

lemma shrink_left_inv_aux:
  assumes "\<forall>i < length merged. channelIdx (merged ! i) < K \<and> channelIdx (merged ! i) \<noteq> k0"
    and "right < length merged"
  shows "sweep_inv K k0 (fst st) (fst (snd st)) \<Longrightarrow>
         sweep_inv K k0 (fst (shrink_left merged w right st))
           (fst (snd (shrink_left merged w right st)))"
  using assms
proof (induction merged w right st rule: shrink_left.induct)
  case (1 merged w right freq hv left)
  show ?case
  proof (cases "timestamp (merged ! right) - timestamp (merged ! left) > w \<and> left < right")
    case True
    define lidx where "lidx = channelIdx (merged ! left)"
    define freq1 where "freq1 = freq[lidx := freq ! lidx - 1]"
    define hv1 where "hv1 = (if freq1 ! lidx = 0 then hv - 1 else hv)"
    from True "1.prems"(3) have "left < length merged" by simp
    with "1.prems"(2) have lidx: "lidx < K" "lidx \<noteq> k0" by (simp_all add: lidx_def)
    from "1.prems"(1) have inv: "sweep_inv K k0 freq hv" by simp
    have inv1: "sweep_inv K k0 (fst (freq1, hv1, left + 1)) (fst (snd (freq1, hv1, left + 1)))"
      unfolding freq1_def hv1_def using sweep_inv_decrement[OF inv lidx] by simp
    from True
    have eq: "shrink_left merged w right (freq, hv, left)
            = shrink_left merged w right (freq1, hv1, left + 1)"
      by (subst shrink_left.simps) (simp add: Let_def lidx_def freq1_def hv1_def)
    from "1.IH"[OF True lidx_def freq1_def hv1_def inv1 "1.prems"(2,3)]
    show ?thesis by (simp only: eq)
  next
    case False
    then have "shrink_left merged w right (freq, hv, left) = (freq, hv, left)"
      by (subst shrink_left.simps) (simp only: if_False)
    with "1.prems"(1) show ?thesis by simp
  qed
qed

lemma shrink_left_inv:
  assumes "\<forall>i < length merged. channelIdx (merged ! i) < K \<and> channelIdx (merged ! i) \<noteq> k0"
    and "right < length merged"
    and "sweep_inv K k0 freq hv"
    and "shrink_left merged w right (freq, hv, left) = (freq', hv', left')"
  shows "sweep_inv K k0 freq' hv'"
  using shrink_left_inv_aux[OF assms(1,2), of "(freq, hv, left)" w] assms(3,4) by simp

lemma nfold_step_inv:
  assumes elems: "\<forall>i < length merged. channelIdx (merged ! i) < K \<and> channelIdx (merged ! i) \<noteq> k0"
    and right: "right < length merged"
    and inv: "sweep_inv K k0 freq hv"
    and step: "nfold_step K merged w right (freq, hv, left, c) = (freq', hv', left', c')"
  shows "sweep_inv K k0 freq' hv' \<and> c' = c"
proof -
  define idx where "idx = channelIdx (merged ! right)"
  define freq1 where "freq1 = freq[idx := freq ! idx + 1]"
  define hv1 where "hv1 = (if freq1 ! idx = 1 then hv + 1 else hv)"
  from elems right have idx: "idx < K" "idx \<noteq> k0" by (simp_all add: idx_def)
  have inv1: "sweep_inv K k0 freq1 hv1"
    unfolding freq1_def hv1_def using sweep_inv_increment[OF inv idx] .
  obtain freq2 hv2 left2 where
    sh: "shrink_left merged w right (freq1, hv1, left) = (freq2, hv2, left2)"
    by (cases "shrink_left merged w right (freq1, hv1, left)") auto
  have inv2: "sweep_inv K k0 freq2 hv2"
    using shrink_left_inv[OF elems right inv1 sh] .
  then have "hv2 \<noteq> K" using sweep_inv_have_less by blast
  with step sh have "(freq2, hv2, left2, c) = (freq', hv', left', c')"
    by (simp add: nfold_step_def Let_def idx_def freq1_def hv1_def)
  with inv2 show ?thesis by simp
qed

lemma nfold_fold_inv:
  assumes elems: "\<forall>i < length merged. channelIdx (merged ! i) < K \<and> channelIdx (merged ! i) \<noteq> k0"
  shows "\<forall>r \<in> set rs. r < length merged \<Longrightarrow> sweep_inv K k0 freq hv \<Longrightarrow>
         fold (nfold_step K merged w) rs (freq, hv, left, c) = (freq', hv', left', c') \<Longrightarrow>
         sweep_inv K k0 freq' hv' \<and> c' = c"
proof (induction rs arbitrary: freq hv left c)
  case Nil
  then show ?case by simp
next
  case (Cons r rs)
  obtain freq1 hv1 left1 c1 where
    st: "nfold_step K merged w r (freq, hv, left, c) = (freq1, hv1, left1, c1)"
    by (cases "nfold_step K merged w r (freq, hv, left, c)") auto
  from Cons.prems(1) have r: "r < length merged" by simp
  from nfold_step_inv[OF elems r Cons.prems(2) st]
  have inv1: "sweep_inv K k0 freq1 hv1" and c1: "c1 = c" by simp_all
  from Cons.prems(3) st
  have "fold (nfold_step K merged w) rs (freq1, hv1, left1, c1) = (freq', hv', left', c')"
    by simp
  from Cons.IH[OF _ inv1 this] Cons.prems(1) c1 show ?case by simp
qed

lemma nfold_sweep_absent_channel:
  assumes elems: "\<forall>i < length merged. channelIdx (merged ! i) < K \<and> channelIdx (merged ! i) \<noteq> k0"
    and k0: "k0 < K"
  shows "nfold_sweep K merged w = 0"
proof -
  have inv0: "sweep_inv K k0 (replicate K 0) 0"
    using k0 by (simp add: sweep_inv_def present_def)
  obtain freq' hv' left' c' where
    f: "fold (nfold_step K merged w) [0..<length merged] (replicate K 0, 0, 0, 0)
          = (freq', hv', left', c')"
    by (cases "fold (nfold_step K merged w) [0..<length merged] (replicate K 0, 0, 0, 0)") auto
  from nfold_fold_inv[OF elems _ inv0 f] have "c' = 0" by simp
  with f show ?thesis by (simp add: nfold_sweep_def)
qed

lemma merge_events_channelIdx:
  assumes "e \<in> set (merge_events channels offsetsPs)"
  shows "channelIdx e < length channels \<and> channels ! channelIdx e \<noteq> []"
  using assms by (auto simp: merge_events_def Let_def)

text \<open>
  Claim C10. On the general path (at least three channels, or two channels with an offsets
  list of the right length), a channel without events makes \<open>countNFoldCoincidences\<close>
  return 0: by \<open>sweep_inv_have_less\<close> the counter \<open>have\<close> stays below the number of
  channels. This holds for every sort that meets \<open>std_sort_contract\<close>, that is, in whatever
  order events of equal timestamps are left.
\<close>

theorem C10_empty_channel_gives_zero:
  assumes "k0 < length channels" and "channels ! k0 = []"
    and "3 \<le> length channels \<or> (length channels = 2 \<and> offsetsPs \<noteq> [])"
    and "offsetsPs = [] \<or> length offsetsPs = length channels"
    and "std_sort_contract std_sort"
  shows "countNFoldCoincidences std_sort channels w offsetsPs = Inr 0"
proof -
  let ?merged = "std_sort (merge_events channels offsetsPs)"
  have "\<forall>i < length ?merged. channelIdx (?merged ! i) < length channels \<and>
          channelIdx (?merged ! i) \<noteq> k0"
  proof (intro allI impI)
    fix i assume "i < length ?merged"
    then have "?merged ! i \<in> set ?merged" by simp
    then have "?merged ! i \<in> set (merge_events channels offsetsPs)"
      by (simp add: std_sort_contract_set[OF assms(5)])
    from merge_events_channelIdx[OF this] assms(2)
    show "channelIdx (?merged ! i) < length channels \<and> channelIdx (?merged ! i) \<noteq> k0"
      by auto
  qed
  from nfold_sweep_absent_channel[OF this assms(1)]
  have "nfold_sweep (length channels) ?merged w = 0" .
  with assms(3,4) show ?thesis
    by (auto simp: countNFoldCoincidences_def Let_def)
qed

theorem C10_empty_channel_gives_zero_witness:
  "countNFoldCoincidences (sort_key timestamp) [[0, 10], [], [5]] 6 [] = Inr 0 \<and>
   countNFoldCoincidences (sort_key timestamp) [[0, 10], []] 6 [0, 0] = Inr 0"
  using C10_empty_channel_gives_zero[of 1 "[[0, 10], [], [5]]" "[]" "sort_key timestamp" 6]
        C10_empty_channel_gives_zero[of 1 "[[0, 10], []]" "[0, 0]" "sort_key timestamp" 6]
        std_sort_contract_sort_key
  by simp

subsection \<open>The counter of present channels\<close>

text \<open>
  On every merged list whose channel indices are below \<open>K\<close>, \<open>have\<close> is the number of
  channels with a positive frequency throughout the sweep, and \<open>left\<close> never passes
  \<open>right + 1\<close>: every read of \<open>merged\<close> and \<open>freq\<close> is in range and \<open>have\<close> is positive
  wherever it is decremented.
\<close>

lemma count_inv_increment:
  assumes "count_inv K freq hv" "idx < K"
  shows "count_inv K (freq[idx := freq ! idx + 1])
           (if (freq[idx := freq ! idx + 1]) ! idx = 1 then hv + 1 else hv)"
proof -
  let ?freq' = "freq[idx := freq ! idx + 1]"
  from assms have len: "length freq = K" and h: "hv = card (present K freq)"
    by (simp_all add: count_inv_def)
  have at: "?freq' ! idx = freq ! idx + 1" using len assms(2) by simp
  have other: "k \<noteq> idx \<Longrightarrow> ?freq' ! k = freq ! k" for k by simp
  show ?thesis
  proof (cases "freq ! idx = 0")
    case True
    have "present K ?freq' = insert idx (present K freq)"
      using True assms(2) len by (auto simp: present_def nth_list_update)
    moreover have "idx \<notin> present K freq" using True by (simp add: present_def)
    ultimately have "card (present K ?freq') = hv + 1"
      using h finite_present by simp
    with True at len show ?thesis by (simp add: count_inv_def)
  next
    case False
    have "present K ?freq' = present K freq"
    proof -
      have "1 \<le> ?freq' ! k \<longleftrightarrow> 1 \<le> freq ! k" for k
        using False at other[of k] by (cases "k = idx") auto
      then show ?thesis by (simp add: present_def)
    qed
    with False at len h show ?thesis by (simp add: count_inv_def)
  qed
qed

lemma count_inv_decrement:
  assumes "count_inv K freq hv" "idx < K"
  shows "count_inv K (freq[idx := freq ! idx - 1])
           (if (freq[idx := freq ! idx - 1]) ! idx = 0 then hv - 1 else hv)"
    and "(freq[idx := freq ! idx - 1]) ! idx = 0 \<Longrightarrow> 0 < hv"
proof -
  let ?freq' = "freq[idx := freq ! idx - 1]"
  from assms have len: "length freq = K" and h: "hv = card (present K freq)"
    by (simp_all add: count_inv_def)
  have at: "?freq' ! idx = freq ! idx - 1" using len assms(2) by simp
  have other: "k \<noteq> idx \<Longrightarrow> ?freq' ! k = freq ! k" for k by simp
  show "count_inv K ?freq' (if ?freq' ! idx = 0 then hv - 1 else hv)"
  proof (cases "freq ! idx = 1")
    case True
    have "present K ?freq' = present K freq - {idx}"
      using True len assms(2) by (auto simp: present_def nth_list_update split: if_splits)
    moreover have "idx \<in> present K freq" using True assms(2) by (simp add: present_def)
    ultimately have "card (present K ?freq') = hv - 1"
      using h by (simp add: card_Diff_singleton)
    with True at len show ?thesis by (simp add: count_inv_def)
  next
    case False
    have "present K ?freq' = present K freq"
    proof -
      have "1 \<le> ?freq' ! k \<longleftrightarrow> 1 \<le> freq ! k" for k
        using False at other[of k] by (cases "k = idx") auto
      then show ?thesis by (simp add: present_def)
    qed
    with False at len h show ?thesis by (simp add: count_inv_def)
  qed
  show "0 < hv" if "?freq' ! idx = 0"
  proof -
    from that at have "freq ! idx = 1" by simp
    with assms(2) have "idx \<in> present K freq" by (simp add: present_def)
    then have "0 < card (present K freq)" using finite_present card_gt_0_iff by blast
    with h show ?thesis by simp
  qed
qed

lemma shrink_left_count_inv:
  assumes "\<forall>i < length merged. channelIdx (merged ! i) < K" and "right < length merged"
  shows "count_inv K (fst st) (fst (snd st)) \<Longrightarrow> snd (snd st) \<le> right \<Longrightarrow>
         count_inv K (fst (shrink_left merged w right st))
           (fst (snd (shrink_left merged w right st))) \<and>
         snd (snd (shrink_left merged w right st)) \<le> right"
  using assms
proof (induction merged w right st rule: shrink_left.induct)
  case (1 merged w right freq hv left)
  show ?case
  proof (cases "timestamp (merged ! right) - timestamp (merged ! left) > w \<and> left < right")
    case True
    define lidx where "lidx = channelIdx (merged ! left)"
    define freq1 where "freq1 = freq[lidx := freq ! lidx - 1]"
    define hv1 where "hv1 = (if freq1 ! lidx = 0 then hv - 1 else hv)"
    from True "1.prems"(4) have "left < length merged" by simp
    with "1.prems"(3) have lidx: "lidx < K" by (simp add: lidx_def)
    from "1.prems"(1) have inv: "count_inv K freq hv" by simp
    have inv1: "count_inv K (fst (freq1, hv1, left + 1)) (fst (snd (freq1, hv1, left + 1)))"
      unfolding freq1_def hv1_def using count_inv_decrement(1)[OF inv lidx] by simp
    have le1: "snd (snd (freq1, hv1, left + 1)) \<le> right" using True by simp
    from True
    have eq: "shrink_left merged w right (freq, hv, left)
            = shrink_left merged w right (freq1, hv1, left + 1)"
      by (subst shrink_left.simps) (simp add: Let_def lidx_def freq1_def hv1_def)
    from "1.IH"[OF True lidx_def freq1_def hv1_def inv1 le1 "1.prems"(3,4)]
    show ?thesis by (simp only: eq)
  next
    case False
    then have "shrink_left merged w right (freq, hv, left) = (freq, hv, left)"
      by (subst shrink_left.simps) (simp only: if_False)
    with "1.prems"(1,2) show ?thesis by simp
  qed
qed

lemma nfold_step_count_inv:
  assumes elems: "\<forall>i < length merged. channelIdx (merged ! i) < K"
    and right: "right < length merged"
    and inv: "count_inv K freq hv" and left: "left \<le> right"
    and step: "nfold_step K merged w right (freq, hv, left, c) = (freq', hv', left', c')"
  shows "count_inv K freq' hv' \<and> left' \<le> right + 1"
proof -
  define idx where "idx = channelIdx (merged ! right)"
  define freq1 where "freq1 = freq[idx := freq ! idx + 1]"
  define hv1 where "hv1 = (if freq1 ! idx = 1 then hv + 1 else hv)"
  from elems right have idx: "idx < K" by (simp add: idx_def)
  have inv1: "count_inv K freq1 hv1"
    unfolding freq1_def hv1_def using count_inv_increment[OF inv idx] .
  obtain freq2 hv2 left2 where
    sh: "shrink_left merged w right (freq1, hv1, left) = (freq2, hv2, left2)"
    by (cases "shrink_left merged w right (freq1, hv1, left)") auto
  from shrink_left_count_inv[OF elems right, of "(freq1, hv1, left)" w] inv1 left sh
  have inv2: "count_inv K freq2 hv2" and l2: "left2 \<le> right" by simp_all
  show ?thesis
  proof (cases "hv2 = K")
    case True
    define lidx where "lidx = channelIdx (merged ! left2)"
    from l2 right elems have lidx: "lidx < K" by (simp add: lidx_def)
    from step sh True have "freq' = freq2[lidx := freq2 ! lidx - 1]"
      and "hv' = (if (freq2[lidx := freq2 ! lidx - 1]) ! lidx = 0 then hv2 - 1 else hv2)"
      and "left' = left2 + 1"
      by (auto simp add: nfold_step_def Let_def idx_def freq1_def hv1_def lidx_def)
    with count_inv_decrement(1)[OF inv2 lidx] l2 show ?thesis by simp
  next
    case False
    with step sh have "(freq2, hv2, left2, c) = (freq', hv', left', c')"
      by (simp add: nfold_step_def Let_def idx_def freq1_def hv1_def)
    with inv2 l2 show ?thesis by auto
  qed
qed

lemma nfold_fold_count_inv:
  assumes elems: "\<forall>i < length merged. channelIdx (merged ! i) < K"
  shows "n \<le> length merged \<Longrightarrow>
         fold (nfold_step K merged w) [0..<n] (replicate K 0, 0, 0, 0) = (freq', hv', left', c')
         \<Longrightarrow> count_inv K freq' hv' \<and> left' \<le> n"
proof (induction n arbitrary: freq' hv' left' c')
  case 0
  then show ?case by (auto simp: count_inv_def present_def)
next
  case (Suc n)
  obtain freq1 hv1 left1 c1 where
    f: "fold (nfold_step K merged w) [0..<n] (replicate K 0, 0, 0, 0) = (freq1, hv1, left1, c1)"
    by (cases "fold (nfold_step K merged w) [0..<n] (replicate K 0, 0, 0, 0)") auto
  from Suc.prems(1) have n: "n \<le> length merged" "n < length merged" by simp_all
  from Suc.IH[OF n(1) f] have inv1: "count_inv K freq1 hv1" and l1: "left1 \<le> n" by simp_all
  from Suc.prems(2) f
  have "nfold_step K merged w n (freq1, hv1, left1, c1) = (freq', hv', left', c')" by simp
  from nfold_step_count_inv[OF elems n(2) inv1 l1 this] show ?case by simp
qed

section \<open>Two channels in the N-fold counter\<close>

text \<open>
  With equal timestamps in the merged list the count of the general sweep is not fixed by
  the source: both lists below are results that \<^verbatim>\<open>std::sort\<close> may leave for the channels
  \<open>[0]\<close> and \<open>[0, 0]\<close>, and the sweep counts 1 on the first and 2 on the second.
\<close>

lemma nfold_sweep_tie_order:
  "std_sort_result (merge_events [[0], [0, 0]] [0, 0])
     [\<lparr>timestamp = 0, channelIdx = 0\<rparr>, \<lparr>timestamp = 0, channelIdx = 1\<rparr>,
      \<lparr>timestamp = 0, channelIdx = 1\<rparr>] \<and>
   std_sort_result (merge_events [[0], [0, 0]] [0, 0])
     [\<lparr>timestamp = 0, channelIdx = 1\<rparr>, \<lparr>timestamp = 0, channelIdx = 0\<rparr>,
      \<lparr>timestamp = 0, channelIdx = 1\<rparr>] \<and>
   nfold_sweep 2 [\<lparr>timestamp = 0, channelIdx = 0\<rparr>, \<lparr>timestamp = 0, channelIdx = 1\<rparr>,
                  \<lparr>timestamp = 0, channelIdx = 1\<rparr>] 0 = 1 \<and>
   nfold_sweep 2 [\<lparr>timestamp = 0, channelIdx = 1\<rparr>, \<lparr>timestamp = 0, channelIdx = 0\<rparr>,
                  \<lparr>timestamp = 0, channelIdx = 1\<rparr>] 0 = 2"
  by code_simp








section \<open>The delay scan against the brute-force count\<close>

lemma cpp_div_nonneg: "0 \<le> a \<Longrightarrow> 0 < b \<Longrightarrow> cpp_div a b = a div b"
  by (simp add: cpp_div_def)

lemma le_div_iff_int:
  fixes c :: int
  assumes "0 < c"
  shows "k \<le> y div c \<longleftrightarrow> k * c \<le> y"
proof
  assume "k \<le> y div c"
  then have "k * c \<le> (y div c) * c" using assms by (simp add: mult_right_mono)
  also have "\<dots> \<le> y"
    using div_mult_mod_eq[of y c] pos_mod_sign[OF assms, of y] by linarith
  finally show "k * c \<le> y" .
next
  assume le: "k * c \<le> y"
  show "k \<le> y div c"
  proof (rule ccontr)
    assume "\<not> k \<le> y div c"
    then have "y div c + 1 \<le> k" by simp
    then have "(y div c + 1) * c \<le> k * c" using assms by (simp only: mult_right_mono)
    then have "(y div c) * c + c \<le> k * c" by (simp add: algebra_simps)
    moreover have "y < (y div c) * c + c"
      using div_mult_mod_eq[of y c] pos_mod_bound[OF assms, of y] by linarith
    ultimately show False using le by linarith
  qed
qed

lemma ceil_div_le_iff_int:
  fixes c :: int
  assumes "0 < c"
  shows "(x + c - 1) div c \<le> k \<longleftrightarrow> x \<le> k * c"
proof -
  have "(x + c - 1) div c \<le> k \<longleftrightarrow> \<not> (k + 1 \<le> (x + c - 1) div c)" by linarith
  also have "\<dots> \<longleftrightarrow> \<not> ((k + 1) * c \<le> x + c - 1)" by (simp only: le_div_iff_int[OF assms])
  also have "\<dots> \<longleftrightarrow> x \<le> k * c" by (auto simp: algebra_simps)
  finally show ?thesis .
qed

lemma sum_list_take_update:
  fixes xs :: "int list"
  shows "i < length xs \<Longrightarrow>
    sum_list (take n (xs[i := xs ! i + v])) = sum_list (take n xs) + (if i < n then v else 0)"
proof (induction xs arbitrary: i n)
  case Nil
  then show ?case by simp
next
  case (Cons x xs)
  show ?case
  proof (cases n)
    case 0
    then show ?thesis by simp
  next
    case (Suc m)
    show ?thesis
    proof (cases i)
      case 0
      with Suc show ?thesis by simp
    next
      case (Suc i')
      with Cons.prems have "i' < length xs" by simp
      from Cons.IH[OF this, of m] Suc \<open>n = Suc m\<close> show ?thesis by simp
    qed
  qed
qed


lemma accumulate_pair_length [simp]:
  "length (accumulate_pair config w t1 t2 diff) = length diff"
  by (simp add: accumulate_pair_def Let_def)

lemma grid_point_in_range:
  assumes "grid_ok config" "k < steps config"
  shows "startPs config \<le> startPs config + int k * stepPs config"
    and "startPs config + int k * stepPs config \<le> endPs config"
proof -
  from assms have step: "0 < stepPs config" by (simp add: grid_ok_def)
  then show "startPs config \<le> startPs config + int k * stepPs config" by simp
  from assms have "int k \<le> (endPs config - startPs config) div stepPs config"
    by (simp add: grid_ok_def)
  then have "int k * stepPs config \<le> endPs config - startPs config"
    by (simp only: le_div_iff_int[OF step])
  then show "startPs config + int k * stepPs config \<le> endPs config" by simp
qed

lemma accumulate_pair_psum:
  assumes ok: "grid_ok config" and len: "length diff = steps config + 1"
    and k: "k < steps config"
  shows "psum (accumulate_pair config w t1 t2 diff) k
           = psum diff k + hit w (startPs config + int k * stepPs config) t1 t2"
proof -
  define s e st where "s = startPs config" and "e = endPs config" and "st = stepPs config"
  define d where "d = s + int k * st"
  define c where "c = t1 - t2"
  from ok have step: "0 < st" and se: "s \<le> e"
    and n: "steps config = nat ((e - s) div st + 1)"
    by (simp_all add: grid_ok_def s_def e_def st_def)
  from grid_point_in_range[OF ok k] have d: "s \<le> d" "d \<le> e"
    by (simp_all add: d_def s_def e_def st_def)
  have hit: "hit w d t1 t2 = (if c - w \<le> d \<and> d \<le> c + w then 1 else 0)"
    by (auto simp: hit_def c_def)
  show ?thesis
  proof (cases "c + w < s \<or> c - w > e")
    case True
    then have "accumulate_pair config w t1 t2 diff = diff"
      by (auto simp: accumulate_pair_def Let_def c_def s_def e_def)
    moreover from True d have "hit w d t1 t2 = 0" by (auto simp: hit)
    ultimately show ?thesis by (simp add: d_def s_def st_def)
  next
    case False
    define os oe where "os = max (c - w) s - s" and "oe = min (c + w) e - s"
    from False se have os0: "0 \<le> os" and oe0: "0 \<le> oe" and oee: "oe \<le> e - s"
      by (auto simp: os_def oe_def)
    have cs: "cpp_div (os + st - 1) st = (os + st - 1) div st"
      using os0 step by (intro cpp_div_nonneg) simp_all
    have ce: "cpp_div oe st = oe div st"
      using oe0 step by (intro cpp_div_nonneg) simp_all
    define ia ie where "ia = nat (cpp_div (os + st - 1) st)" and "ie = nat (cpp_div oe st)"
    have ia0: "0 \<le> (os + st - 1) div st"
      using os0 step by (simp add: pos_imp_zdiv_nonneg_iff)
    have ie0: "0 \<le> oe div st"
      using oe0 step by (simp add: pos_imp_zdiv_nonneg_iff)
    have "oe div st \<le> (e - s) div st" using oee step by (simp add: zdiv_mono1)
    with ie0 have ie_lt: "ie < steps config" by (simp add: n ie_def ce)
    note raw = c_def s_def e_def st_def os_def oe_def ia_def ie_def
    have unfold: "accumulate_pair config w t1 t2 diff =
        (if ia > ie then diff
         else (diff[ia := diff ! ia + 1])[ie + 1 := (diff[ia := diff ! ia + 1]) ! (ie + 1) - 1])"
    proof (cases "ia > ie")
      case True
      from True[unfolded raw] False[unfolded raw] show ?thesis
        unfolding raw by (auto simp add: accumulate_pair_def Let_def)
    next
      case le: False
      from le[unfolded raw] False[unfolded raw] ie_lt[unfolded raw] show ?thesis
        unfolding raw by (auto simp add: accumulate_pair_def Let_def)
    qed
    have lo: "c - w \<le> d \<longleftrightarrow> ia \<le> k"
    proof -
      have "c - w \<le> d \<longleftrightarrow> os \<le> int k * st" using d by (auto simp: os_def d_def)
      also have "\<dots> \<longleftrightarrow> (os + st - 1) div st \<le> int k"
        by (simp only: ceil_div_le_iff_int[OF step])
      also have "\<dots> \<longleftrightarrow> ia \<le> k" using ia0 by (simp add: ia_def cs nat_le_iff)
      finally show ?thesis .
    qed
    have hi: "d \<le> c + w \<longleftrightarrow> k \<le> ie"
    proof -
      have "d \<le> c + w \<longleftrightarrow> int k * st \<le> oe" using d by (auto simp: oe_def d_def)
      also have "\<dots> \<longleftrightarrow> int k \<le> oe div st"
        by (simp only: le_div_iff_int[OF step])
      also have "\<dots> \<longleftrightarrow> k \<le> ie" using ie0 by (simp add: ie_def ce le_nat_iff)
      finally show ?thesis .
    qed
    show ?thesis
    proof (cases "ia > ie")
      case True
      with unfold have "accumulate_pair config w t1 t2 diff = diff" by simp
      moreover from True lo hi have "hit w d t1 t2 = 0" by (auto simp: hit)
      ultimately show ?thesis by (simp add: d_def s_def st_def)
    next
      case le: False
      define diff1 where "diff1 = diff[ia := diff ! ia + 1]"
      from le ie_lt len have i1: "ia < length diff" and i2: "ie + 1 < length diff1"
        by (simp_all add: diff1_def)
      from unfold le have "accumulate_pair config w t1 t2 diff
          = diff1[ie + 1 := diff1 ! (ie + 1) + (- 1)]"
        by (simp add: diff1_def)
      then have "psum (accumulate_pair config w t1 t2 diff) k
          = psum diff1 k + (if ie + 1 < Suc k then - 1 else 0)"
        using sum_list_take_update[OF i2, of "Suc k" "- 1"] by (simp add: psum_def)
      also have "psum diff1 k = psum diff k + (if ia < Suc k then 1 else 0)"
        using sum_list_take_update[OF i1, of "Suc k" 1] by (simp add: psum_def diff1_def)
      finally have "psum (accumulate_pair config w t1 t2 diff) k
          = psum diff k + (if ia \<le> k \<and> k \<le> ie then 1 else 0)"
        using le by auto
      moreover have "hit w d t1 t2 = (if ia \<le> k \<and> k \<le> ie then 1 else 0)"
        using lo hi by (simp add: hit)
      ultimately show ?thesis by (simp add: d_def s_def st_def)
    qed
  qed
qed

lemma fold_accumulate_length [simp]:
  "length (fold (\<lambda>j. accumulate_pair config w t1 (B ! j)) js diff) = length diff"
  by (induction js arbitrary: diff) simp_all

lemma fold_accumulate_psum:
  assumes ok: "grid_ok config" and k: "k < steps config"
  shows "length diff = steps config + 1 \<Longrightarrow>
         psum (fold (\<lambda>j. accumulate_pair config w t1 (B ! j)) js diff) k
           = psum diff k
             + (\<Sum>j\<leftarrow>js. hit w (startPs config + int k * stepPs config) t1 (B ! j))"
proof (induction js arbitrary: diff)
  case Nil
  then show ?case by simp
next
  case (Cons j js)
  have "length (accumulate_pair config w t1 (B ! j) diff) = steps config + 1"
    using Cons.prems by simp
  from Cons.IH[OF this] accumulate_pair_psum[OF ok Cons.prems k, of w t1 "B ! j"]
  show ?case by simp
qed

lemma advance_jLo_ge: "jLo \<le> advance_jLo B bnd jLo"
proof (induction B bnd jLo rule: advance_jLo.induct)
  case (1 B bnd jLo)
  show ?case
  proof (cases "jLo < length B \<and> B ! jLo < bnd")
    case True
    with 1 show ?thesis by (subst advance_jLo.simps) simp
  next
    case False
    then show ?thesis by (subst advance_jLo.simps) (simp only: if_False order_refl)
  qed
qed

lemma advance_jLo_le: "jLo \<le> length B \<Longrightarrow> advance_jLo B bnd jLo \<le> length B"
proof (induction B bnd jLo rule: advance_jLo.induct)
  case (1 B bnd jLo)
  show ?case
  proof (cases "jLo < length B \<and> B ! jLo < bnd")
    case True
    with 1 show ?thesis by (subst advance_jLo.simps) simp
  next
    case False
    with "1.prems" show ?thesis by (subst advance_jLo.simps) (simp only: if_False)
  qed
qed

lemma advance_jLo_below:
  "jLo \<le> j \<Longrightarrow> j < advance_jLo B bnd jLo \<Longrightarrow> B ! j < bnd"
proof (induction B bnd jLo rule: advance_jLo.induct)
  case (1 B bnd jLo)
  show ?case
  proof (cases "jLo < length B \<and> B ! jLo < bnd")
    case True
    then have eq: "advance_jLo B bnd jLo = advance_jLo B bnd (jLo + 1)"
      by (subst advance_jLo.simps) simp
    show ?thesis
    proof (cases "j = jLo")
      case True
      with \<open>jLo < length B \<and> B ! jLo < bnd\<close> show ?thesis by simp
    next
      case False
      with "1.prems" eq have "jLo + 1 \<le> j" "j < advance_jLo B bnd (jLo + 1)" by simp_all
      from "1.IH"[OF True this] show ?thesis .
    qed
  next
    case False
    then have "advance_jLo B bnd jLo = jLo"
      by (subst advance_jLo.simps) (simp only: if_False)
    with "1.prems" show ?thesis by simp
  qed
qed

lemma advance_jHi_ge: "jHi \<le> advance_jHi B bnd jHi"
proof (induction B bnd jHi rule: advance_jHi.induct)
  case (1 B bnd jHi)
  show ?case
  proof (cases "jHi < length B \<and> B ! jHi \<le> bnd")
    case True
    with 1 show ?thesis by (subst advance_jHi.simps) simp
  next
    case False
    then show ?thesis by (subst advance_jHi.simps) (simp only: if_False order_refl)
  qed
qed

lemma advance_jHi_le: "jHi \<le> length B \<Longrightarrow> advance_jHi B bnd jHi \<le> length B"
proof (induction B bnd jHi rule: advance_jHi.induct)
  case (1 B bnd jHi)
  show ?case
  proof (cases "jHi < length B \<and> B ! jHi \<le> bnd")
    case True
    with 1 show ?thesis by (subst advance_jHi.simps) simp
  next
    case False
    with "1.prems" show ?thesis by (subst advance_jHi.simps) (simp only: if_False)
  qed
qed

lemma advance_jHi_stop:
  "advance_jHi B bnd jHi < length B \<Longrightarrow> bnd < B ! advance_jHi B bnd jHi"
proof (induction B bnd jHi rule: advance_jHi.induct)
  case (1 B bnd jHi)
  show ?case
  proof (cases "jHi < length B \<and> B ! jHi \<le> bnd")
    case True
    then have eq: "advance_jHi B bnd jHi = advance_jHi B bnd (jHi + 1)"
      by (subst advance_jHi.simps) simp
    from "1.IH"[OF True] "1.prems" show ?thesis by (simp only: eq)
  next
    case False
    then have "advance_jHi B bnd jHi = jHi"
      by (subst advance_jHi.simps) (simp only: if_False)
    with "1.prems" False show ?thesis by simp
  qed
qed

lemma length_filter_sum_list:
  "int (length (filter P xs)) = (\<Sum>x\<leftarrow>xs. if P x then 1 else 0)"
  by (induction xs) simp_all

lemma length_filter_product:
  "int (length (filter P (List.product xs ys)))
     = (\<Sum>x\<leftarrow>xs. \<Sum>y\<leftarrow>ys. if P (x, y) then 1 else 0)"
proof (induction xs)
  case Nil
  then show ?case by simp
next
  case (Cons x xs)
  have "int (length (filter P (map (Pair x) ys))) = (\<Sum>y\<leftarrow>ys. if P (x, y) then 1 else 0)"
    by (simp add: length_filter_sum_list filter_map comp_def)
  with Cons show ?case by simp
qed

lemma sum_list_nth_upt:
  fixes f :: "'a \<Rightarrow> int"
  shows "(\<Sum>j\<leftarrow>[0..<length xs]. f (xs ! j)) = (\<Sum>x\<leftarrow>xs. f x)"
proof -
  have "map (\<lambda>j. f (xs ! j)) [0..<length xs] = map f (map ((!) xs) [0..<length xs])"
    by simp
  then show ?thesis by (simp only: map_nth)
qed

lemma brute_force_count_cross_sum: "brute_force_count A B w d = cross_sum A B w d"
proof -
  have "brute_force_count A B w d
      = (\<Sum>i\<leftarrow>[0..<length A]. \<Sum>j\<leftarrow>[0..<length B]. hit w d (A ! i) (B ! j))"
    by (simp add: brute_force_count_def length_filter_product hit_def)
  also have "\<dots> = (\<Sum>i\<leftarrow>[0..<length A]. \<Sum>b\<leftarrow>B. hit w d (A ! i) b)"
    by (simp only: sum_list_nth_upt[of "\<lambda>b. hit w d (A ! _) b" B])
  also have "\<dots> = (\<Sum>a\<leftarrow>A. \<Sum>b\<leftarrow>B. hit w d a b)"
    by (rule sum_list_nth_upt[of "\<lambda>a. \<Sum>b\<leftarrow>B. hit w d a b" A])
  finally show ?thesis by (simp add: cross_sum_def)
qed

text \<open>Events of \<open>B\<close> outside the index window cannot hit a grid point.\<close>

lemma window_sum:
  fixes g :: "nat \<Rightarrow> int"
  assumes "jLo \<le> jHi" "jHi \<le> n"
    and "\<And>j. j < jLo \<Longrightarrow> g j = 0" and "\<And>j. jHi \<le> j \<Longrightarrow> j < n \<Longrightarrow> g j = 0"
  shows "(\<Sum>j\<leftarrow>[jLo..<jHi]. g j) = (\<Sum>j\<leftarrow>[0..<n]. g j)"
proof -
  have "sum g {jLo..<jHi} = sum g {0..<n}"
  proof (rule sum.mono_neutral_left)
    show "finite {0..<n}" by simp
    show "{jLo..<jHi} \<subseteq> {0..<n}" using assms(2) by auto
    show "\<forall>i\<in>{0..<n} - {jLo..<jHi}. g i = 0"
      using assms(3,4) by (auto simp: not_less)
  qed
  then show ?thesis by (simp add: interv_sum_list_conv_sum_set_nat)
qed

lemma scan_step_correct:
  assumes ok: "grid_ok config" and B: "sorted B"
    and lo: "jLo \<le> length B" and hi: "jHi \<le> length B"
    and len: "length diff = steps config + 1"
    and below: "\<forall>j<jLo. B ! j < t1 - (endPs config + w)"
    and step: "scan_step config w B t1 (jLo, jHi, diff) = (jLo', jHi', diff')"
  shows "jLo' \<le> length B \<and> jHi' \<le> length B \<and> length diff' = length diff \<and>
         (\<forall>j<jLo'. B ! j < t1 - (endPs config + w)) \<and>
         (\<forall>k<steps config. psum diff' k = psum diff k +
              (\<Sum>b\<leftarrow>B. hit w (startPs config + int k * stepPs config) t1 b))"
proof -
  define lowCut where "lowCut = t1 - (endPs config + w)"
  define highCut where "highCut = t1 - (startPs config - w)"
  define j0 where "j0 = (if jHi < advance_jLo B lowCut jLo then advance_jLo B lowCut jLo else jHi)"
  from step have jLo': "jLo' = advance_jLo B lowCut jLo"
    and jHi': "jHi' = advance_jHi B highCut j0"
    and diff': "diff' = fold (\<lambda>j. accumulate_pair config w t1 (B ! j)) [jLo'..<jHi'] diff"
    by (auto simp add: scan_step_def Let_def lowCut_def highCut_def j0_def)
  have a: "jLo' \<le> length B" unfolding jLo' using lo by (rule advance_jLo_le)
  have "j0 \<le> length B" using a hi by (simp add: j0_def jLo')
  then have b: "jHi' \<le> length B" unfolding jHi' by (rule advance_jHi_le)
  have "jLo' \<le> j0" by (simp add: j0_def jLo')
  also have "j0 \<le> jHi'" unfolding jHi' by (rule advance_jHi_ge)
  finally have c: "jLo' \<le> jHi'" .
  have d: "B ! j < lowCut" if "j < jLo'" for j
  proof (cases "j < jLo")
    case True
    with below show ?thesis by (simp add: lowCut_def)
  next
    case False
    then have "jLo \<le> j" by simp
    from advance_jLo_below[OF this that[unfolded jLo']] show ?thesis .
  qed
  have e: "highCut < B ! j" if "jHi' \<le> j" "j < length B" for j
  proof -
    from that have "jHi' < length B" by simp
    then have "highCut < B ! jHi'" unfolding jHi' by (rule advance_jHi_stop)
    also have "B ! jHi' \<le> B ! j" using B that by (simp add: sorted_nth_mono)
    finally show ?thesis .
  qed
  have sums: "psum diff' k = psum diff k +
      (\<Sum>b\<leftarrow>B. hit w (startPs config + int k * stepPs config) t1 b)"
    if k: "k < steps config" for k
  proof -
    define dk where "dk = startPs config + int k * stepPs config"
    from grid_point_in_range[OF ok k] have dk: "startPs config \<le> dk" "dk \<le> endPs config"
      by (simp_all add: dk_def)
    have "psum diff' k = psum diff k + (\<Sum>j\<leftarrow>[jLo'..<jHi']. hit w dk t1 (B ! j))"
      unfolding diff' dk_def by (rule fold_accumulate_psum[OF ok k len])
    also have "(\<Sum>j\<leftarrow>[jLo'..<jHi']. hit w dk t1 (B ! j))
        = (\<Sum>j\<leftarrow>[0..<length B]. hit w dk t1 (B ! j))"
    proof (rule window_sum[OF c b])
      fix j assume "j < jLo'"
      from d[OF this] dk show "hit w dk t1 (B ! j) = 0"
        by (auto simp: hit_def lowCut_def)
    next
      fix j assume "jHi' \<le> j" "j < length B"
      from e[OF this] dk show "hit w dk t1 (B ! j) = 0"
        by (auto simp: hit_def highCut_def)
    qed
    also have "\<dots> = (\<Sum>b\<leftarrow>B. hit w dk t1 b)" by (rule sum_list_nth_upt)
    finally show ?thesis by (simp add: dk_def)
  qed
  from a b d sums show ?thesis by (simp add: diff' lowCut_def)
qed

lemma scan_channel1_correct:
  assumes ok: "grid_ok config" and B: "sorted B"
  shows "sorted A \<Longrightarrow> jLo \<le> length B \<Longrightarrow> jHi \<le> length B \<Longrightarrow>
         length diff = steps config + 1 \<Longrightarrow>
         (\<forall>j<jLo. \<forall>a\<in>set A. B ! j < a - (endPs config + w)) \<Longrightarrow>
         scan_channel1 config w B A (jLo, jHi, diff) = (jLo', jHi', diff') \<Longrightarrow>
         length diff' = length diff \<and>
         (\<forall>k<steps config. psum diff' k = psum diff k +
              cross_sum A B w (startPs config + int k * stepPs config))"
proof (induction A arbitrary: jLo jHi diff)
  case Nil
  then show ?case by (simp add: scan_channel1_def cross_sum_def)
next
  case (Cons t1 A)
  obtain jLo1 jHi1 diff1 where
    st: "scan_step config w B t1 (jLo, jHi, diff) = (jLo1, jHi1, diff1)"
    by (cases "scan_step config w B t1 (jLo, jHi, diff)") auto
  from Cons.prems(5) have below: "\<forall>j<jLo. B ! j < t1 - (endPs config + w)" by simp
  from scan_step_correct[OF ok B Cons.prems(2,3,4) below st]
  have s1: "jLo1 \<le> length B" "jHi1 \<le> length B" "length diff1 = length diff"
    and s2: "\<forall>j<jLo1. B ! j < t1 - (endPs config + w)"
    and s3: "\<forall>k<steps config. psum diff1 k = psum diff k +
              (\<Sum>b\<leftarrow>B. hit w (startPs config + int k * stepPs config) t1 b)"
    by simp_all
  from Cons.prems(1) have sA: "sorted A" and t1: "\<forall>a\<in>set A. t1 \<le> a" by simp_all
  have below1: "\<forall>j<jLo1. \<forall>a\<in>set A. B ! j < a - (endPs config + w)"
    using s2 t1 by fastforce
  from Cons.prems(6) st
  have "scan_channel1 config w B A (jLo1, jHi1, diff1) = (jLo', jHi', diff')"
    by (simp add: scan_channel1_def)
  from Cons.IH[OF sA s1(1,2) _ below1 this] s1(3) Cons.prems(4)
  have "length diff' = length diff1"
    and "\<forall>k<steps config. psum diff' k = psum diff1 k +
              cross_sum A B w (startPs config + int k * stepPs config)"
    by simp_all
  with s1(3) s3 show ?case by (simp add: cross_sum_def)
qed

lemma fill_prefix_sums_upto:
  "n \<le> length results \<Longrightarrow> n \<le> length diff \<Longrightarrow>
   fold (\<lambda>idx (running, res).
           (let running' = running + diff ! idx;
                delayPs = startPs config + int idx * stepPs config
            in (running', res[idx := (delay_ns delayPs, static_cast_int running')])))
     [0..<n] (0, results)
   = (sum_list (take n diff),
      map (\<lambda>k. (delay_ns (startPs config + int k * stepPs config),
                 static_cast_int (psum diff k))) [0..<n] @ drop n results)"
proof (induction n)
  case 0
  then show ?case by simp
next
  case (Suc n)
  from Suc.prems have n: "n < length results" "n < length diff" by simp_all
  let ?row = "\<lambda>k. (delay_ns (startPs config + int k * stepPs config),
                 static_cast_int (psum diff k))"
  have ps: "sum_list (take n diff) + diff ! n = psum diff n"
    using n(2) by (simp add: psum_def take_Suc_conv_app_nth)
  have upd: "(map ?row [0..<n] @ drop n results)[n := ?row n]
      = map ?row [0..<Suc n] @ drop (Suc n) results"
  proof -
    have d: "drop n results = results ! n # drop (Suc n) results"
      using n(1) by (simp add: Cons_nth_drop_Suc)
    show ?thesis by (simp add: list_update_append d)
  qed
  have "fold (\<lambda>idx (running, res).
           (let running' = running + diff ! idx;
                delayPs = startPs config + int idx * stepPs config
            in (running', res[idx := (delay_ns delayPs, static_cast_int running')])))
     [0..<Suc n] (0, results)
    = (sum_list (take n diff) + diff ! n,
       (map ?row [0..<n] @ drop n results)[n := (delay_ns (startPs config + int n * stepPs config),
                 static_cast_int (sum_list (take n diff) + diff ! n))])"
    using Suc.IH n by (simp add: Let_def)
  also have "\<dots> = (sum_list (take (Suc n) diff), map ?row [0..<Suc n] @ drop (Suc n) results)"
    unfolding ps upd using ps by (simp add: psum_def)
  finally show ?case .
qed


lemma fill_zero_upto:
  "n \<le> length results \<Longrightarrow>
   fold (\<lambda>idx res. res[idx := (delay_ns (startPs config + int idx * stepPs config), 0)])
     [0..<n] results
   = map (\<lambda>k. (delay_ns (startPs config + int k * stepPs config), 0)) [0..<n]
       @ drop n results"
proof (induction n)
  case 0
  then show ?case by simp
next
  case (Suc n)
  then have n: "n < length results" by simp
  have d: "drop n results = results ! n # drop (Suc n) results"
    using n by (simp add: Cons_nth_drop_Suc)
  from Suc.IH n show ?case by (simp add: list_update_append d)
qed

lemma sum_list_replicate_zero: "sum_list (replicate m (0::int)) = 0"
  by (induction m) simp_all

lemma psum_replicate_zero: "psum (replicate n 0) k = 0"
  by (simp add: psum_def sum_list_replicate_zero)

lemma cross_sum_empty [simp]: "cross_sum [] B w d = 0" "cross_sum A [] w d = 0"
  by (simp_all add: cross_sum_def)

lemma static_cast_int_zero [simp]: "static_cast_int 0 = 0"
  by (simp add: static_cast_int_def)

lemma computeCoincidencesForRange_closed_form:
  assumes A: "sorted A" and B: "sorted B" and step: "0 < step_ps" and le: "start_ps \<le> end_ps"
  shows "computeCoincidencesForRange A B w start_ps end_ps step_ps results =
     (Inr (), map (\<lambda>k. (delay_ns (start_ps + int k * step_ps),
                          static_cast_int (brute_force_count A B w (start_ps + int k * step_ps))))
                [0..<nat ((end_ps - start_ps) div step_ps + 1)])"
proof -
  define n where "n = nat ((end_ps - start_ps) div step_ps + 1)"
  define config where
    "config = \<lparr>startPs = start_ps, endPs = end_ps, stepPs = step_ps, steps = n\<rparr>"
  have q: "0 \<le> (end_ps - start_ps) div step_ps"
    using le step by (simp add: pos_imp_zdiv_nonneg_iff)
  then have n0: "n \<noteq> 0" by (simp add: n_def)
  have bc: "buildConfig start_ps end_ps step_ps = Inr config"
    using step le by (simp add: buildConfig_def config_def n_def cpp_div_nonneg)
  have ok: "grid_ok config" using step le by (simp add: grid_ok_def config_def n_def)
  have sel: "startPs config = start_ps" "stepPs config = step_ps" "steps config = n"
    by (simp_all add: config_def)
  let ?row = "\<lambda>k. (delay_ns (start_ps + int k * step_ps),
                    static_cast_int (brute_force_count A B w (start_ps + int k * step_ps)))"
  show ?thesis
  proof (cases "A = [] \<or> B = []")
    case True
    then have z: "brute_force_count A B w d = 0" for d
      by (auto simp: brute_force_count_cross_sum)
    have "fill_zero config (replicate n (0, 0)) = map ?row [0..<n]"
      using fill_zero_upto[of n "replicate n (0, 0)" config]
      by (simp add: fill_zero_def sel z)
    with True n0 show ?thesis
      by (simp add: computeCoincidencesForRange_def bc sel n_def[symmetric])
  next
    case False
    obtain jLo jHi diff where
      sc: "scan_channel1 config w B A (0, 0, replicate (n + 1) 0) = (jLo, jHi, diff)"
      by (cases "scan_channel1 config w B A (0, 0, replicate (n + 1) 0)") auto
    have "length diff = length (replicate (n + 1) (0::int)) \<and>
         (\<forall>k<steps config. psum diff k = psum (replicate (n + 1) 0) k +
              cross_sum A B w (startPs config + int k * stepPs config))"
      by (rule scan_channel1_correct[OF ok B A _ _ _ _ sc]) (simp_all add: sel)
    then have len: "length diff = n + 1"
      and ps: "\<And>k. k < n \<Longrightarrow> psum diff k = brute_force_count A B w (start_ps + int k * step_ps)"
      by (simp_all add: sel brute_force_count_cross_sum psum_replicate_zero
          del: replicate_Suc replicate.simps)
    have "snd (fill_prefix_sums config diff (replicate n (0, 0)))
        = map (\<lambda>k. (delay_ns (start_ps + int k * step_ps), static_cast_int (psum diff k))) [0..<n]"
      using fill_prefix_sums_upto[of n "replicate n (0, 0)" diff config] len
      by (simp add: fill_prefix_sums_def sel)
    also have "\<dots> = map ?row [0..<n]" using ps by simp
    finally have "snd (fill_prefix_sums config diff (replicate n (0, 0))) = map ?row [0..<n]" .
    with False n0 sc show ?thesis
      by (simp add: computeCoincidencesForRange_def bc sel n_def[symmetric])
  qed
qed

lemma brute_force_count_nonneg: "0 \<le> brute_force_count A B w d"
  by (simp add: brute_force_count_def)

lemma static_cast_int_id: "- 2147483648 \<le> x \<Longrightarrow> x < 2147483648 \<Longrightarrow> static_cast_int x = x"
  by (simp add: static_cast_int_def)

lemma sum_list_all_const:
  fixes f :: "'a \<Rightarrow> int"
  shows "\<forall>x\<in>set xs. f x = c \<Longrightarrow> sum_list (map f xs) = int (length xs) * c"
  by (induction xs) (simp_all add: algebra_simps)

lemma cross_sum_all_hit:
  assumes "\<forall>a\<in>set A. \<forall>b\<in>set B. \<bar>a - d - b\<bar> \<le> w"
  shows "cross_sum A B w d = int (length A) * int (length B)"
proof -
  have inner: "(\<Sum>b\<leftarrow>B. hit w d a b) = int (length B)" if "a \<in> set A" for a
  proof -
    have "\<forall>b\<in>set B. hit w d a b = 1" using assms that by (simp add: hit_def)
    from sum_list_all_const[OF this] show ?thesis by simp
  qed
  then show ?thesis
    using sum_list_all_const[of A "\<lambda>a. \<Sum>b\<leftarrow>B. hit w d a b" "int (length B)"]
    by (simp add: cross_sum_def)
qed

lemma sorted_map_int_upt: "sorted (map int [0..<n])"
  by (simp add: sorted_map sorted_wrt_iff_nth_less)

text \<open>
  Claim C1 as stated fails on views with \<open>2^31\<close> pairs inside the window: the count of an
  entry is an \<open>int\<close>, and \<open>static_cast<int>\<close> reduces the running sum modulo \<open>2^32\<close>.
  Below, 65536 and 32768 events, all within the window at delay 0.
\<close>

theorem C1_count_exceeds_int_counterexample:
  "snd (snd (computeCoincidencesForRange (map int [0..<65536]) (map int [0..<32768])
               65536 0 0 1 []) ! 0)
     \<noteq> brute_force_count (map int [0..<65536]) (map int [0..<32768]) 65536 0"
proof -
  let ?A = "map int [0..<65536]" and ?B = "map int [0..<32768]"
  have "\<forall>a\<in>set ?A. \<forall>b\<in>set ?B. \<bar>a - 0 - b\<bar> \<le> 65536" by auto
  from cross_sum_all_hit[OF this]
  have bf: "brute_force_count ?A ?B 65536 0 = 2147483648"
    by (simp add: brute_force_count_cross_sum)
  have "computeCoincidencesForRange ?A ?B 65536 0 0 1 []
      = (Inr (), [(delay_ns 0, static_cast_int (brute_force_count ?A ?B 65536 0))])"
    using computeCoincidencesForRange_closed_form[where A = ?A and B = ?B and w = 65536
        and start_ps = 0 and end_ps = 0 and step_ps = 1 and results = "[]"]
    by (simp add: sorted_map_int_upt)
  then show ?thesis by (simp add: bf static_cast_int_def)
qed

text \<open>
  Claim C1, amended. For sorted views, a positive step and \<open>end_ps \<ge> start_ps\<close>, the scan
  succeeds with \<open>\<lfloor>(end_ps - start_ps) / step_ps\<rfloor> + 1\<close> entries in grid order; entry \<open>k\<close>
  carries the delay \<open>f32(start_ps + k * step_ps) / 1000\<close> and the brute-force count at that
  delay converted to \<open>int\<close>, which is the brute-force count itself whenever that is below
  \<open>2^31\<close>; with an empty view every count is 0.
\<close>

theorem C1_scan_is_brute_force_count:
  assumes "sorted A" and "sorted B" and "0 < w" and "0 < step_ps" and "start_ps \<le> end_ps"
  shows "fst (computeCoincidencesForRange A B w start_ps end_ps step_ps results) = Inr () \<and>
    length (snd (computeCoincidencesForRange A B w start_ps end_ps step_ps results))
      = nat ((end_ps - start_ps) div step_ps + 1) \<and>
    (\<forall>k < nat ((end_ps - start_ps) div step_ps + 1).
       snd (computeCoincidencesForRange A B w start_ps end_ps step_ps results) ! k
         = (delay_ns (start_ps + int k * step_ps),
            static_cast_int (brute_force_count A B w (start_ps + int k * step_ps))) \<and>
       (brute_force_count A B w (start_ps + int k * step_ps) < 2147483648 \<longrightarrow>
          snd (snd (computeCoincidencesForRange A B w start_ps end_ps step_ps results) ! k)
            = brute_force_count A B w (start_ps + int k * step_ps)) \<and>
       (A = [] \<or> B = [] \<longrightarrow>
          snd (snd (computeCoincidencesForRange A B w start_ps end_ps step_ps results) ! k) = 0))"
proof -
  note cf = computeCoincidencesForRange_closed_form[OF assms(1,2,4,5), of w results]
  have "static_cast_int (brute_force_count A B w d) = brute_force_count A B w d"
    if "brute_force_count A B w d < 2147483648" for d
    using that brute_force_count_nonneg[of A B w d] by (intro static_cast_int_id) simp_all
  moreover have "brute_force_count A B w d = 0" if "A = [] \<or> B = []" for d
    using that by (auto simp: brute_force_count_cross_sum)
  ultimately show ?thesis by (simp add: cf)
qed

theorem C1_scan_is_brute_force_count_witness:
  "length (snd (computeCoincidencesForRange [0, 1000] [50, 1050] 100 (- 200) 200 50 [])) = 9 \<and>
   snd (computeCoincidencesForRange [0, 1000] [50, 1050] 100 (- 200) 200 50 []) ! 5
     = (delay_ns 50, static_cast_int (brute_force_count [0, 1000] [50, 1050] 100 50))"
  using C1_scan_is_brute_force_count[of "[0, 1000]" "[50, 1050]" 100 50 "- 200" 200 "[]"] by simp

section \<open>The floating-point model\<close>

text \<open>The exponent function is correct, and kernel evaluation of the model on literals.\<close>

lemma floor_rat_numeral: "\<lfloor>(numeral a :: rat) / numeral b\<rfloor> = numeral a div numeral b"
  using floor_divide_of_int_eq[of "numeral a" "numeral b", where ?'a = rat] by simp

lemmas float_eval = f32_of_ll_def f32_div_def f64_of_f32_def f64_of_ll_def f64_mul_def
  round_to_precision_def ilog2_def pow2_def round_half_even_def bit_length.simps
  kPicosecondsPerNanosecond_def Let_def floor_rat_numeral

lemma bit_length_bounds:
  "0 < n \<Longrightarrow> 2 ^ (bit_length n - 1) \<le> n \<and> n < 2 ^ bit_length n"
proof (induction n rule: bit_length.induct)
  case (1 n)
  from "1.prems" have n0: "\<not> n \<le> 0" by simp
  have bl: "bit_length n = Suc (bit_length (n div 2))"
    using n0 by (subst bit_length.simps) simp
  show ?case
  proof (cases "n div 2 \<le> 0")
    case True
    with "1.prems" have "n = 1" by linarith
    then show ?thesis by (simp add: bit_length.simps)
  next
    case False
    then have pos: "0 < n div 2" by simp
    from "1.IH"[OF n0 pos] have lo: "2 ^ (bit_length (n div 2) - 1) \<le> n div 2"
      and hi: "n div 2 < 2 ^ bit_length (n div 2)" by simp_all
    have b1: "0 < bit_length (n div 2)"
      using False by (subst bit_length.simps) simp
    then have "(2::int) ^ bit_length (n div 2) = 2 * 2 ^ (bit_length (n div 2) - 1)"
      by (cases "bit_length (n div 2)") simp_all
    with lo hi show ?thesis unfolding bl by (simp, linarith)
  qed
qed

lemma pow2_of_nat: "pow2 (int k) = 2 ^ k"
  by (simp add: pow2_def)

lemma pow2_minus_of_nat: "pow2 (- int k) = 1 / 2 ^ k"
proof (cases k)
  case 0
  then show ?thesis by (simp add: pow2_def)
next
  case (Suc m)
  then have "\<not> 0 \<le> - int k" by simp
  moreover have "nat (- (- int k)) = k" by simp
  ultimately show ?thesis by (simp only: pow2_def if_False)
qed

lemma pow2_pos: "0 < pow2 e"
  by (simp add: pow2_def)

lemma pow2_add_one: "pow2 (e + 1) = 2 * pow2 e"
proof (cases "0 \<le> e")
  case True
  then have "nat (e + 1) = Suc (nat e)" by simp
  with True show ?thesis by (simp add: pow2_def)
next
  case False
  define k where "k = nat (- e) - 1"
  from False have k: "e = - int (Suc k)" unfolding k_def by linarith
  then have "e + 1 = - int k" by simp
  then show ?thesis unfolding k by (simp only: pow2_minus_of_nat) simp
qed

lemma ilog2_bounds:
  assumes "0 < x"
  shows "pow2 (ilog2 x) \<le> x \<and> x < pow2 (ilog2 x + 1)"
proof (cases "1 \<le> x")
  case True
  define n where "n = \<lfloor>x\<rfloor>"
  define L where "L = bit_length n"
  from True have fl: "1 \<le> \<lfloor>x\<rfloor>" by simp
  then have n1: "0 < n" by (simp add: n_def)
  have nx: "of_int n \<le> x" "x < of_int n + 1"
    using fl floor_correct[of x] by (simp_all add: n_def)
  from bit_length_bounds[OF n1] have lo: "2 ^ (L - 1) \<le> n" and hi: "n < 2 ^ L"
    by (simp_all add: L_def)
  have L1: "0 < L" using hi n1 by (cases L) simp_all
  then have e0: "int L - 1 = int (L - 1)" by simp
  have p: "pow2 (int L - 1) = 2 ^ (L - 1)" unfolding e0 by (rule pow2_of_nat)
  have a: "(2::rat) ^ (L - 1) \<le> of_int n"
    using lo of_int_le_iff[of "2 ^ (L - 1)" n, where ?'a = rat] by simp
  have le: "pow2 (int L - 1) \<le> x" unfolding p using a nx(1) by (rule order_trans)
  then have il: "ilog2 x = int L - 1"
    using True by (simp add: ilog2_def n_def L_def)
  have b: "of_int n + 1 \<le> (2::rat) ^ L"
    using hi of_int_le_iff[of "n + 1" "2 ^ L", where ?'a = rat] by simp
  have "x < 2 ^ L" using nx(2) b by (rule less_le_trans)
  moreover have "pow2 (int L - 1 + 1) = 2 ^ L" by (simp add: pow2_of_nat)
  ultimately show ?thesis using le il by simp
next
  case False
  define y where "y = 1 / x"
  define n where "n = \<lfloor>y\<rfloor>"
  define L where "L = bit_length n"
  from False assms have y1: "1 < y" by (simp add: y_def)
  then have fl: "1 \<le> \<lfloor>y\<rfloor>" by simp
  then have n1: "0 < n" by (simp add: n_def)
  have ny: "of_int n \<le> y" "y < of_int n + 1"
    using fl floor_correct[of y] by (simp_all add: n_def)
  from bit_length_bounds[OF n1] have lo: "2 ^ (L - 1) \<le> n" and hi: "n < 2 ^ L"
    by (simp_all add: L_def)
  have L1: "0 < L" using hi n1 by (cases L) simp_all
  then have e0: "1 - int L = - int (L - 1)" by simp
  have p: "pow2 (1 - int L) = 1 / 2 ^ (L - 1)" unfolding e0 by (rule pow2_minus_of_nat)
  have lo': "(2::rat) ^ (L - 1) \<le> y"
  proof -
    have "(2::rat) ^ (L - 1) \<le> of_int n"
      using lo of_int_le_iff[of "2 ^ (L - 1)" n, where ?'a = rat] by simp
    then show ?thesis using ny(1) by (rule order_trans)
  qed
  have hi': "y < (2::rat) ^ L"
  proof -
    have "of_int n + 1 \<le> (2::rat) ^ L"
      using hi of_int_le_iff[of "n + 1" "2 ^ L", where ?'a = rat] by simp
    with ny(2) show ?thesis by (rule less_le_trans)
  qed
  have xy: "x = 1 / y" using assms by (simp add: y_def)
  have ypos: "0 < y" using y1 by simp
  show ?thesis
  proof (cases "pow2 (1 - int L) \<le> x")
    case True
    then have il: "ilog2 x = 1 - int L"
      using False by (simp add: ilog2_def n_def L_def y_def)
    have "x < 2 * pow2 (1 - int L)"
    proof -
      have "x * 2 ^ (L - 1) \<le> 1"
        using lo' ypos unfolding xy by (simp add: field_simps)
      then have "x * 2 ^ (L - 1) < 2" by simp
      then show ?thesis unfolding p by (simp add: field_simps)
    qed
    moreover from pow2_add_one[of "1 - int L"]
    have "pow2 (ilog2 x + 1) = 2 * pow2 (1 - int L)" by (simp only: il)
    ultimately show ?thesis using True il by simp
  next
    case nle: False
    then have il: "ilog2 x = 1 - int L - 1"
      using False by (simp add: ilog2_def n_def L_def y_def)
    have "pow2 (- int L) \<le> x"
    proof -
      have "1 \<le> x * 2 ^ L"
        using hi' ypos unfolding xy by (simp add: field_simps)
      then show ?thesis unfolding pow2_minus_of_nat by (simp add: field_simps)
    qed
    moreover have "ilog2 x = - int L" using il by simp
    moreover have "x < pow2 (- int L + 1)" using nle by (simp add: add.commute)
    ultimately show ?thesis by simp
  qed
qed

lemma round_trip_small_delays:
  "llround (f64_mul (f64_of_f32 (delay_ns 50)) (f64_of_ll kPicosecondsPerNanosecond)) = 50"
  "llround (f64_mul (f64_of_f32 (delay_ns (- 150))) (f64_of_ll kPicosecondsPerNanosecond)) = - 150"
  "llround (f64_mul (f64_of_f32 (delay_ns 16384000)) (f64_of_ll kPicosecondsPerNanosecond))
     = 16384000"
  by (simp_all add: delay_ns_def llround_def float_eval)

section \<open>The best delay\<close>

text \<open>
  The linear scan returns the recomputed delay of the first entry with the maximal count;
  on an empty grid it returns \<open>delayStartPs\<close>.
\<close>

lemma best_entry_snoc:
  "best_entry init (results @ [entry]) =
     (case best_entry init results of (bestDelayPs, bestCount) \<Rightarrow>
        if snd entry > bestCount
        then (llround (f64_mul (f64_of_f32 (fst entry)) (f64_of_ll kPicosecondsPerNanosecond)),
              snd entry)
        else (bestDelayPs, bestCount))"
  by (simp add: best_entry_def Let_def split: prod.splits)

lemma best_entry_first_max:
  assumes "results \<noteq> []" and "\<forall>e\<in>set results. c0 < snd e"
  shows "\<exists>k<length results.
           best_entry (d0, c0) results =
             (llround (f64_mul (f64_of_f32 (fst (results ! k)))
                         (f64_of_ll kPicosecondsPerNanosecond)), snd (results ! k)) \<and>
           (\<forall>j<length results. snd (results ! j) \<le> snd (results ! k)) \<and>
           (\<forall>j<k. snd (results ! j) < snd (results ! k))"
  using assms
proof (induction results rule: rev_induct)
  case Nil
  then show ?case by simp
next
  case (snoc e es)
  let ?recompute = "\<lambda>x. llround (f64_mul (f64_of_f32 x) (f64_of_ll kPicosecondsPerNanosecond))"
  show ?case
  proof (cases "es = []")
    case True
    with snoc.prems(2) have "best_entry (d0, c0) (es @ [e]) = (?recompute (fst e), snd e)"
      by (simp add: best_entry_def)
    with True show ?thesis by simp
  next
    case False
    from snoc.prems(2) have "\<forall>e\<in>set es. c0 < snd e" by simp
    from snoc.IH[OF False this] obtain k where k: "k < length es"
      and b: "best_entry (d0, c0) es = (?recompute (fst (es ! k)), snd (es ! k))"
      and mx: "\<forall>j<length es. snd (es ! j) \<le> snd (es ! k)"
      and fst: "\<forall>j<k. snd (es ! j) < snd (es ! k)"
      by blast
    show ?thesis
    proof (cases "snd e > snd (es ! k)")
      case True
      have "best_entry (d0, c0) (es @ [e]) = (?recompute (fst e), snd e)"
        using True b by (simp add: best_entry_snoc)
      moreover have "\<forall>j<length (es @ [e]). snd ((es @ [e]) ! j) \<le> snd e"
        using mx True by (auto simp: nth_append less_Suc_eq)
      moreover have "\<forall>j<length es. snd ((es @ [e]) ! j) < snd e"
        using mx True by (fastforce simp: nth_append)
      ultimately show ?thesis
        by (intro exI[of _ "length es"]) simp
    next
      case False
      have "best_entry (d0, c0) (es @ [e]) = (?recompute (fst (es ! k)), snd (es ! k))"
        using False b by (simp add: best_entry_snoc)
      moreover have "\<forall>j<length (es @ [e]). snd ((es @ [e]) ! j) \<le> snd (es ! k)"
        using mx False by (auto simp: nth_append less_Suc_eq)
      moreover have "\<forall>j<k. snd ((es @ [e]) ! j) < snd (es ! k)"
        using fst k by (simp add: nth_append)
      ultimately show ?thesis using k
        by (intro exI[of _ k]) (simp add: nth_append)
    qed
  qed
qed

lemma findBestDelayPicoseconds_first_max:
  assumes A: "sorted A" and B: "sorted B" and step: "0 < step_ps" and le: "start_ps \<le> end_ps"
    and fits: "\<forall>k < nat ((end_ps - start_ps) div step_ps + 1).
                 brute_force_count A B w (start_ps + int k * step_ps) < 2147483648"
  shows "\<exists>k < nat ((end_ps - start_ps) div step_ps + 1).
      fst (findBestDelayPicoseconds A B w start_ps end_ps step_ps results)
        = Inr (llround (f64_mul (f64_of_f32 (delay_ns (start_ps + int k * step_ps)))
                          (f64_of_ll kPicosecondsPerNanosecond))) \<and>
      (\<forall>j < nat ((end_ps - start_ps) div step_ps + 1).
          brute_force_count A B w (start_ps + int j * step_ps)
            \<le> brute_force_count A B w (start_ps + int k * step_ps)) \<and>
      (\<forall>j < k. brute_force_count A B w (start_ps + int j * step_ps)
            < brute_force_count A B w (start_ps + int k * step_ps))"
proof -
  define n where "n = nat ((end_ps - start_ps) div step_ps + 1)"
  define cnt where "cnt = (\<lambda>k. brute_force_count A B w (start_ps + int k * step_ps))"
  define row where "row = (\<lambda>k. (delay_ns (start_ps + int k * step_ps), static_cast_int (cnt k)))"
  define rs where "rs = map row [0..<n]"
  have cf: "computeCoincidencesForRange A B w start_ps end_ps step_ps results = (Inr (), rs)"
    using computeCoincidencesForRange_closed_form[OF A B step le, of w results]
    by (simp add: rs_def row_def cnt_def n_def)
  have "0 \<le> (end_ps - start_ps) div step_ps"
    using le step by (simp add: pos_imp_zdiv_nonneg_iff)
  then have n0: "0 < n" by (simp add: n_def)
  have c: "static_cast_int (cnt k) = cnt k" if "k < n" for k
    using that fits brute_force_count_nonneg[of A B w "start_ps + int k * step_ps"]
    by (intro static_cast_int_id) (simp_all add: cnt_def n_def)
  have nth: "rs ! k = (delay_ns (start_ps + int k * step_ps), cnt k)" if "k < n" for k
    using that c by (simp add: rs_def row_def)
  have ne: "rs \<noteq> []" using n0 by (simp add: rs_def)
  have "\<forall>e\<in>set rs. INT_MIN < snd e"
  proof
    fix e assume "e \<in> set rs"
    then obtain k where "k < n" "e = rs ! k" by (auto simp: in_set_conv_nth rs_def)
    with nth[of k] brute_force_count_nonneg[of A B w "start_ps + int k * step_ps"]
    show "INT_MIN < snd e" by (simp add: INT_MIN_def cnt_def)
  qed
  from best_entry_first_max[OF ne this, of start_ps]
  obtain k where k: "k < length rs"
    and b: "best_entry (start_ps, INT_MIN) rs =
             (llround (f64_mul (f64_of_f32 (fst (rs ! k)))
                         (f64_of_ll kPicosecondsPerNanosecond)), snd (rs ! k))"
    and mx: "\<forall>j<length rs. snd (rs ! j) \<le> snd (rs ! k)"
    and fs: "\<forall>j<k. snd (rs ! j) < snd (rs ! k)"
    by blast
  have len: "length rs = n" by (simp add: rs_def)
  from k len have kn: "k < n" by simp
  have "fst (findBestDelayPicoseconds A B w start_ps end_ps step_ps results)
      = Inr (llround (f64_mul (f64_of_f32 (delay_ns (start_ps + int k * step_ps)))
                          (f64_of_ll kPicosecondsPerNanosecond)))"
    using b nth[OF kn] by (simp add: findBestDelayPicoseconds_def cf)
  moreover have "\<forall>j<n. cnt j \<le> cnt k"
    using mx nth kn len by simp
  moreover have "\<forall>j<k. cnt j < cnt k"
  proof (intro allI impI)
    fix j assume "j < k"
    with fs have "snd (rs ! j) < snd (rs ! k)" by simp
    with \<open>j < k\<close> kn nth[of j] nth[of k] show "cnt j < cnt k" by simp
  qed
  ultimately show ?thesis using kn unfolding n_def cnt_def by blast
qed

lemma delay_ns_16384001: "delay_ns 16384001 = 8388609 / 512"
  by (simp add: delay_ns_def float_eval)

lemma llround_of_delay_ns_16384001:
  "llround (f64_mul (f64_of_f32 (8388609 / 512)) (f64_of_ll kPicosecondsPerNanosecond))
     = 16384002"
  by (simp add: llround_def float_eval)

lemma brute_force_count_single: "brute_force_count [16384001] [0] 1 16384001 = 1"
  by (simp add: brute_force_count_def)

lemma scan_single_point:
  "computeCoincidencesForRange [16384001] [0] 1 16384001 16384001 1 []
     = (Inr (), [(8388609 / 512, 1)])"
  using computeCoincidencesForRange_closed_form[where A = "[16384001]" and B = "[0]" and w = 1
        and start_ps = 16384001 and end_ps = 16384001 and step_ps = 1 and results = "[]"]
  by (simp add: brute_force_count_single delay_ns_16384001 static_cast_int_def)

lemma findBestDelayPicoseconds_empty_grid:
  "0 < step_ps \<Longrightarrow> end_ps < start_ps \<Longrightarrow>
   findBestDelayPicoseconds A B w start_ps end_ps step_ps results = (Inr start_ps, [])"
  by (simp add: findBestDelayPicoseconds_def computeCoincidencesForRange_empty_grid
      best_entry_def)

text \<open>
  Claim C4 at a failing input. The grid has the single point 16384001 ps, which carries the
  maximal count 1. Its x-coordinate is \<open>f32(16384001) / 1000 = 8388609 / 512\<close>, and
  \<open>llround\<close> of that times 1000 is 16384002: the value returned is not the grid point, and
  lies outside \<open>[delayStartPs, delayEndPs]\<close>.
\<close>

theorem C4_returned_delay_off_grid:
  "findBestDelayPicoseconds [16384001] [0] 1 16384001 16384001 1 []
     = (Inr 16384002, [(delay_ns 16384001, 1)])"
  by (simp add: findBestDelayPicoseconds_def scan_single_point best_entry_def
      llround_of_delay_ns_16384001 delay_ns_16384001 INT_MIN_def)

section \<open>The rolling window\<close>

text \<open>
  What \<open>prune\<close> does to one channel: a channel that reaches into the window is trimmed to
  the bound; a channel whose whole range is older is returned as it is, and no channel is
  ever emptied.
\<close>

lemma prune_entry_stale:
  "eventsPerSecond s \<noteq> [] \<Longrightarrow>
   baseSecond s + int (length (eventsPerSecond s)) - 1 < minSecond \<Longrightarrow>
   prune_entry minSecond s = s"
  by (simp add: prune_entry_def Let_def)

lemma prune_entry_keeps_events:
  "eventsPerSecond s \<noteq> [] \<Longrightarrow> eventsPerSecond (prune_entry minSecond s) \<noteq> []"
  by (auto simp: prune_entry_def Let_def)

lemma prune_entry_overlapping:
  assumes "eventsPerSecond s \<noteq> []"
    and "minSecond \<le> baseSecond s + int (length (eventsPerSecond s)) - 1"
  shows "minSecond \<le> baseSecond (prune_entry minSecond s)"
  using assms by (auto simp: prune_entry_def Let_def)

lemma stale_channel_state:
  "appendChunk [(1, \<lparr>channel = 1, baseSecond = 0, eventsPerSecond = [[5]]\<rparr>)]
     (RollingSingles_init 3)
   = \<lparr>channels_m = [1 \<mapsto> \<lparr>channel = 1, baseSecond = 0, eventsPerSecond = [[5]]\<rparr>],
      latestChunks_m = [1 \<mapsto> [[5]]], windowSeconds_m = 3, latestSecond_m = 0\<rparr>"
  by (simp add: appendChunk_def append_entry_def append_bucket_def ensureSecond_def prune_def
      prune_entry_def RollingSingles_init_def Singles_default_def LLONG_MIN_def Let_def fun_eq_iff)

text \<open>
  Claim C3 at a failing input. Window 3; a first chunk stamps slice 0 of channel 1, a second
  chunk slice 10 of channel 2. After the second \<open>appendChunk\<close> the latest slice is 10, so the
  bound is 8, and channel 1 still holds its bucket of slice 0 at \<open>baseSecond = 0\<close>.
\<close>

theorem C3_stale_channel_not_pruned:
  "appendChunk [(2, \<lparr>channel = 2, baseSecond = 10, eventsPerSecond = [[7]]\<rparr>)]
     (appendChunk [(1, \<lparr>channel = 1, baseSecond = 0, eventsPerSecond = [[5]]\<rparr>)]
        (RollingSingles_init 3))
   = \<lparr>channels_m = [1 \<mapsto> \<lparr>channel = 1, baseSecond = 0, eventsPerSecond = [[5]]\<rparr>,
                     2 \<mapsto> \<lparr>channel = 2, baseSecond = 10, eventsPerSecond = [[7]]\<rparr>],
      latestChunks_m = [1 \<mapsto> [[5]], 2 \<mapsto> [[7]]], windowSeconds_m = 3, latestSecond_m = 10\<rparr>"
  unfolding stale_channel_state
  by (simp add: appendChunk_def append_entry_def append_bucket_def ensureSecond_def prune_def
      prune_entry_def Singles_default_def LLONG_MIN_def Let_def fun_eq_iff)

section \<open>Sorted buckets\<close>

lemma eventsForSecond_in_buckets:
  "eventsForSecond s x = [] \<or> eventsForSecond s x \<in> set (eventsPerSecond s)"
  by (simp add: eventsForSecond_def Let_def)

lemma eventsForSecond_nth:
  "i < length (eventsPerSecond s) \<Longrightarrow>
   eventsForSecond s (baseSecond s + int i) = eventsPerSecond s ! i"
  by (auto simp: eventsForSecond_def Let_def)

lemma buckets_sorted_iff:
  "buckets_sorted s \<longleftrightarrow> (\<forall>x. sorted (eventsForSecond s x))"
proof
  assume bs: "buckets_sorted s"
  show "\<forall>x. sorted (eventsForSecond s x)"
  proof
    fix x
    from eventsForSecond_in_buckets[of s x] bs show "sorted (eventsForSecond s x)"
      by (auto simp: buckets_sorted_def)
  qed
next
  assume all: "\<forall>x. sorted (eventsForSecond s x)"
  show "buckets_sorted s"
    unfolding buckets_sorted_def
  proof
    fix b assume "b \<in> set (eventsPerSecond s)"
    then obtain i where i: "i < length (eventsPerSecond s)" "b = eventsPerSecond s ! i"
      by (auto simp: in_set_conv_nth)
    from all eventsForSecond_nth[OF i(1)] i(2) show "sorted b" by metis
  qed
qed

lemma ensureSecond_index:
  assumes "ensureSecond s sec = (s', b)"
  shows "b < length (eventsPerSecond s')" and "baseSecond s' + int b = sec"
    and "channel s' = channel s"
  using assms by (auto simp: ensureSecond_def Let_def split: if_splits)

lemma ensureSecond_view:
  assumes "ensureSecond s sec = (s', b)"
  shows "eventsForSecond s' x = eventsForSecond s x"
proof (cases "eventsPerSecond s = []")
  case True
  with assms show ?thesis by (auto simp: ensureSecond_def eventsForSecond_def Let_def)
next
  case ne: False
  show ?thesis
  proof (cases "sec < baseSecond s")
    case True
    with ne assms have s': "eventsPerSecond s' = replicate (nat (baseSecond s - sec)) [] @ eventsPerSecond s"
      "baseSecond s' = sec"
      by (auto simp: ensureSecond_def Let_def)
    show ?thesis
    proof (cases "x < baseSecond s")
      case True
      then show ?thesis using ne s' \<open>sec < baseSecond s\<close>
        by (auto simp: eventsForSecond_def Let_def nth_append)
    next
      case False
      then have "nat (x - sec) - nat (baseSecond s - sec) = nat (x - baseSecond s)"
        using \<open>sec < baseSecond s\<close> by simp
      then show ?thesis using ne s' \<open>sec < baseSecond s\<close> False
        by (auto simp: eventsForSecond_def Let_def nth_append)
    qed
  next
    case False
    with ne assms have s': "baseSecond s' = baseSecond s"
      "eventsPerSecond s' = eventsPerSecond s \<or>
       (\<exists>n. eventsPerSecond s' = eventsPerSecond s @ replicate n [])"
      by (auto simp: ensureSecond_def Let_def split: if_splits)
    then show ?thesis using ne
      by (auto simp: eventsForSecond_def Let_def nth_append)
  qed
qed

lemma eventsForSecond_update:
  assumes "b < length (eventsPerSecond s)" and "baseSecond s + int b = sec"
  shows "eventsForSecond (s\<lparr>eventsPerSecond := (eventsPerSecond s)[b := v]\<rparr>) x
           = (if x = sec then v else eventsForSecond s x)"
proof -
  from assms(1) have ne: "eventsPerSecond s \<noteq> []" by auto
  have "nat (x - baseSecond s) = b \<longleftrightarrow> x = sec" if "baseSecond s \<le> x"
    using that assms(2) by auto
  with assms ne show ?thesis
    by (auto simp: eventsForSecond_def Let_def nth_list_update)
qed

lemma append_bucket_view:
  assumes "append_bucket incoming idx (target, latest) = (target', latest')"
  shows "eventsForSecond target' x =
           (if x = baseSecond incoming + int idx
            then eventsForSecond target x @ eventsPerSecond incoming ! idx
            else eventsForSecond target x)"
proof -
  define sec where "sec = baseSecond incoming + int idx"
  obtain s' b where es: "ensureSecond target sec = (s', b)"
    by (cases "ensureSecond target sec") auto
  note ix = ensureSecond_index[OF es]
  have bucket: "eventsPerSecond s' ! b = eventsForSecond target sec"
    using eventsForSecond_nth[OF ix(1)] ix(2) ensureSecond_view[OF es, of sec] by simp
  from assms es have "target' = s'\<lparr>eventsPerSecond :=
      (eventsPerSecond s')[b := eventsPerSecond s' ! b @ eventsPerSecond incoming ! idx]\<rparr>"
    by (simp add: append_bucket_def Let_def sec_def)
  then show ?thesis
    using eventsForSecond_update[OF ix(1,2)] ensureSecond_view[OF es] bucket
    by (simp add: sec_def)
qed

lemma fold_append_bucket_view:
  "fold (append_bucket incoming) [0..<n] (target, latest) = (target', latest') \<Longrightarrow>
   eventsForSecond target' x =
     (if baseSecond incoming \<le> x \<and> x < baseSecond incoming + int n
      then eventsForSecond target x @ eventsPerSecond incoming ! nat (x - baseSecond incoming)
      else eventsForSecond target x)"
proof (induction n arbitrary: target' latest')
  case 0
  then show ?case by auto
next
  case (Suc n)
  obtain t1 l1 where f: "fold (append_bucket incoming) [0..<n] (target, latest) = (t1, l1)"
    by (cases "fold (append_bucket incoming) [0..<n] (target, latest)") auto
  with Suc.prems have ab: "append_bucket incoming n (t1, l1) = (target', latest')" by simp
  have "nat (x - baseSecond incoming) = n" if "x = baseSecond incoming + int n"
    using that by simp
  with append_bucket_view[OF ab, of x] Suc.IH[OF f] show ?case by auto
qed


lemma Singles_default_sorted: "buckets_sorted Singles_default"
  by (simp add: buckets_sorted_def Singles_default_def)

lemma channelSingles_sorted: "rolling_sorted r \<Longrightarrow> buckets_sorted (channelSingles r ch)"
  by (auto simp: rolling_sorted_def channelSingles_def Singles_default_sorted split: option.splits)

lemma eventsForSecond_channel_update [simp]:
  "eventsForSecond (s\<lparr>channel := c\<rparr>) x = eventsForSecond s x"
  by (simp add: eventsForSecond_def Let_def)

lemma append_entry_sorted:
  assumes rs: "rolling_sorted r"
    and fit: "\<forall>idx < length (eventsPerSecond incoming).
        sorted (eventsForSecond (channelSingles r ch) (baseSecond incoming + int idx)
                  @ eventsPerSecond incoming ! idx)"
  shows "rolling_sorted (append_entry (ch, incoming) r)"
    and "ch' \<noteq> ch \<Longrightarrow> channels_m (append_entry (ch, incoming) r) ch' = channels_m r ch'"
proof -
  define target0 where "target0 = channelSingles r ch"
  define target1 where "target1 = (if eventsPerSecond target0 = []
                          then target0\<lparr>channel := channel incoming\<rparr> else target0)"
  define n where "n = length (eventsPerSecond incoming)"
  obtain target2 latest where
    f: "fold (append_bucket incoming) [0..<n] (target1, latestSecond_m r) = (target2, latest)"
    by (cases "fold (append_bucket incoming) [0..<n] (target1, latestSecond_m r)") auto
  have res: "append_entry (ch, incoming) r =
      (if eventsPerSecond incoming = [] then r
       else r\<lparr>channels_m := (channels_m r)(ch \<mapsto> target2),
              latestChunks_m := (latestChunks_m r)(ch \<mapsto> eventsPerSecond incoming),
              latestSecond_m := latest\<rparr>)"
    using f[unfolded target1_def target0_def n_def channelSingles_def]
    by (auto simp add: append_entry_def Let_def)
  have v1: "eventsForSecond target1 x = eventsForSecond target0 x" for x
    by (simp add: target1_def)
  have s0: "sorted (eventsForSecond target0 x)" for x
    using channelSingles_sorted[OF rs, of ch] by (simp add: buckets_sorted_iff target0_def)
  have "sorted (eventsForSecond target2 x)" for x
  proof (cases "baseSecond incoming \<le> x \<and> x < baseSecond incoming + int n")
    case True
    define idx where "idx = nat (x - baseSecond incoming)"
    from True have idx: "idx < n" "baseSecond incoming + int idx = x"
      by (auto simp add: idx_def)
    from fit idx have "sorted (eventsForSecond target0 x @ eventsPerSecond incoming ! idx)"
      by (auto simp: n_def target0_def)
    with fold_append_bucket_view[OF f, of x] True show ?thesis
      by (simp add: v1 idx_def)
  next
    case False
    with fold_append_bucket_view[OF f, of x] s0[of x] show ?thesis
      by (simp add: v1)
  qed
  then have s2: "buckets_sorted target2" by (simp add: buckets_sorted_iff)
  show "rolling_sorted (append_entry (ch, incoming) r)"
    using rs s2 by (auto simp: res rolling_sorted_def)
  show "ch' \<noteq> ch \<Longrightarrow> channels_m (append_entry (ch, incoming) r) ch' = channels_m r ch'"
    by (simp add: res)
qed

lemma fold_append_entry_sorted:
  "distinct (map fst chunk) \<Longrightarrow> rolling_sorted r \<Longrightarrow> chunk_in_order r chunk \<Longrightarrow>
   rolling_sorted (fold append_entry chunk r)"
proof (induction chunk arbitrary: r)
  case Nil
  then show ?case by simp
next
  case (Cons entry chunk)
  obtain ch incoming where entry: "entry = (ch, incoming)" by (cases entry)
  from Cons.prems(3) have fit: "\<forall>idx < length (eventsPerSecond incoming).
        sorted (eventsForSecond (channelSingles r ch) (baseSecond incoming + int idx)
                  @ eventsPerSecond incoming ! idx)"
    by (simp add: chunk_in_order_def entry)
  note ae = append_entry_sorted[OF Cons.prems(2) fit]
  have "chunk_in_order (append_entry (ch, incoming) r) chunk"
    unfolding chunk_in_order_def
  proof (intro ballI, clarify)
    fix ch' inc' idx
    assume mem: "(ch', inc') \<in> set chunk" and idx: "idx < length (eventsPerSecond inc')"
    from mem Cons.prems(1) have "ch' \<noteq> ch" by (force simp: entry)
    from ae(2)[OF this]
    have "channelSingles (append_entry (ch, incoming) r) ch' = channelSingles r ch'"
      by (simp add: channelSingles_def)
    with Cons.prems(3) mem idx
    show "sorted (eventsForSecond (channelSingles (append_entry (ch, incoming) r) ch')
                    (baseSecond inc' + int idx) @ eventsPerSecond inc' ! idx)"
      by (auto simp: chunk_in_order_def)
  qed
  from Cons.IH[OF _ ae(1) this] Cons.prems(1) show ?case by (simp add: entry)
qed

lemma prune_entry_sorted: "buckets_sorted s \<Longrightarrow> buckets_sorted (prune_entry m s)"
  by (auto simp: prune_entry_def buckets_sorted_def Let_def dest: in_set_dropD)

lemma prune_sorted: "rolling_sorted r \<Longrightarrow> rolling_sorted (prune r)"
  by (auto simp: prune_def rolling_sorted_def Let_def prune_entry_sorted)

lemma appendChunk_sorted:
  "distinct (map fst chunk) \<Longrightarrow> rolling_sorted r \<Longrightarrow> chunk_in_order r chunk \<Longrightarrow>
   rolling_sorted (appendChunk chunk r)"
  by (simp add: appendChunk_def prune_sorted fold_append_entry_sorted)

lemma sorted_snoc_last:
  fixes xs :: "int list"
  assumes "sorted xs" "xs = [] \<or> last xs \<le> t"
  shows "sorted (xs @ [t])"
proof (cases "xs = []")
  case True
  then show ?thesis by simp
next
  case False
  with assms(2) have l: "last xs \<le> t" by simp
  have "x \<le> t" if "x \<in> set xs" for x
  proof -
    from that obtain i where i: "i < length xs" "x = xs ! i" by (auto simp: in_set_conv_nth)
    from False have "last xs = xs ! (length xs - 1)" by (simp add: last_conv_nth)
    moreover from i have "xs ! i \<le> xs ! (length xs - 1)"
      using assms(1) by (intro sorted_nth_mono) simp_all
    ultimately show ?thesis using l i by simp
  qed
  with assms(1) show ?thesis by (simp add: sorted_append)
qed

lemma insert_sorted_aux:
  fixes xs :: "int list"
  shows "sorted xs \<Longrightarrow>
    sorted (takeWhile (\<lambda>x. \<not> ts < x) xs @ ts # dropWhile (\<lambda>x. \<not> ts < x) xs)"
proof (induction xs)
  case Nil
  then show ?case by simp
next
  case (Cons x xs)
  then have IH: "sorted (takeWhile (\<lambda>x. \<not> ts < x) xs @ ts # dropWhile (\<lambda>x. \<not> ts < x) xs)"
    and x: "\<forall>y\<in>set xs. x \<le> y" and sxs: "sorted xs"
    by simp_all
  show ?case
  proof (cases "ts < x")
    case True
    with x have "\<forall>y\<in>set xs. ts \<le> y" by fastforce
    with True sxs x show ?thesis by simp
  next
    case False
    have "set (takeWhile (\<lambda>x. \<not> ts < x) xs @ ts # dropWhile (\<lambda>x. \<not> ts < x) xs)
        \<subseteq> insert ts (set xs)"
      using set_takeWhileD[of _ "\<lambda>x. \<not> ts < x" xs] set_dropWhileD[of _ "\<lambda>x. \<not> ts < x" xs]
      by auto
    with x False have "\<forall>y\<in>set (takeWhile (\<lambda>x. \<not> ts < x) xs @ ts # dropWhile (\<lambda>x. \<not> ts < x) xs). x \<le> y"
      by fastforce
    with False IH show ?thesis by simp
  qed
qed

lemma upper_bound_insert_sorted:
  assumes "sorted bucket"
  shows "sorted (take (upper_bound bucket ts) bucket @ [ts] @ drop (upper_bound bucket ts) bucket)"
proof -
  have t: "take (upper_bound bucket ts) bucket = takeWhile (\<lambda>x. \<not> ts < x) bucket"
    unfolding upper_bound_def by (rule takeWhile_eq_take[symmetric])
  have d: "drop (upper_bound bucket ts) bucket = dropWhile (\<lambda>x. \<not> ts < x) bucket"
    unfolding upper_bound_def by (rule dropWhile_eq_drop[symmetric])
  from insert_sorted_aux[OF assms, of ts] show ?thesis
    by (simp only: t d append_Cons append_Nil)
qed

lemma ensureSecond_sorted:
  assumes "ensureSecond s sec = (s', b)" "buckets_sorted s"
  shows "buckets_sorted s'"
  using assms ensureSecond_view[OF assms(1)] by (simp add: buckets_sorted_iff)

lemma appendTimestamp_sorted:
  assumes "buckets_sorted s"
  shows "buckets_sorted (appendTimestamp s second ts)"
proof -
  obtain s' b where es: "ensureSecond s second = (s', b)"
    by (cases "ensureSecond s second") auto
  have bs': "buckets_sorted s'" using ensureSecond_sorted[OF es assms] .
  define bucket where "bucket = eventsPerSecond s' ! b"
  define bucket' where "bucket' = (if bucket \<noteq> [] \<and> ts < last bucket then
                          (let pos = upper_bound bucket ts
                           in take pos bucket @ [ts] @ drop pos bucket)
                        else bucket @ [ts])"
  from ensureSecond_index(1)[OF es] bs' have sb: "sorted bucket"
    by (simp add: bucket_def buckets_sorted_def)
  have sb': "sorted bucket'"
  proof (cases "bucket \<noteq> [] \<and> ts < last bucket")
    case True
    then show ?thesis
      using upper_bound_insert_sorted[OF sb, of ts] by (simp add: bucket'_def Let_def)
  next
    case False
    then have "bucket = [] \<or> last bucket \<le> ts" by auto
    from sorted_snoc_last[OF sb this] False show ?thesis by (auto simp add: bucket'_def)
  qed
  have res: "appendTimestamp s second ts
      = s'\<lparr>eventsPerSecond := (eventsPerSecond s')[b := bucket']\<rparr>"
    using es by (simp add: appendTimestamp_def Let_def bucket_def bucket'_def)
  have "set ((eventsPerSecond s')[b := bucket']) \<subseteq> insert bucket' (set (eventsPerSecond s'))"
    by (rule set_update_subset_insert)
  with bs' sb' show ?thesis unfolding res by (auto simp: buckets_sorted_def)
qed

lemmas rolling_eval = appendChunk_def append_entry_def append_bucket_def ensureSecond_def
  prune_def prune_entry_def RollingSingles_init_def Singles_default_def LLONG_MIN_def Let_def
  fun_eq_iff

lemma first_chunk_state:
  "appendChunk [(1, \<lparr>channel = 1, baseSecond = 0, eventsPerSecond = [[5, 10]]\<rparr>)]
     (RollingSingles_init 3)
   = \<lparr>channels_m = [1 \<mapsto> \<lparr>channel = 1, baseSecond = 0, eventsPerSecond = [[5, 10]]\<rparr>],
      latestChunks_m = [1 \<mapsto> [[5, 10]]], windowSeconds_m = 3, latestSecond_m = 0\<rparr>"
  by (simp add: rolling_eval)

lemma second_chunk_state:
  "appendChunk [(1, \<lparr>channel = 1, baseSecond = 0, eventsPerSecond = [[3, 7]]\<rparr>)]
     \<lparr>channels_m = [1 \<mapsto> \<lparr>channel = 1, baseSecond = 0, eventsPerSecond = [[5, 10]]\<rparr>],
      latestChunks_m = [1 \<mapsto> [[5, 10]]], windowSeconds_m = 3, latestSecond_m = 0\<rparr>
   = \<lparr>channels_m = [1 \<mapsto> \<lparr>channel = 1, baseSecond = 0, eventsPerSecond = [[5, 10, 3, 7]]\<rparr>],
      latestChunks_m = [1 \<mapsto> [[3, 7]]], windowSeconds_m = 3, latestSecond_m = 0\<rparr>"
  by (simp add: rolling_eval)

text \<open>
  Claim C8 as stated fails for \<open>appendChunk\<close>: two chunks that stamp the same slice are
  concatenated, not merged.
\<close>

theorem C8_appendChunk_unsorted_counterexample:
  "\<not> sorted (eventsPerSecond (the (channels_m
        (appendChunk [(1, \<lparr>channel = 1, baseSecond = 0, eventsPerSecond = [[3, 7]]\<rparr>)]
           (appendChunk [(1, \<lparr>channel = 1, baseSecond = 0, eventsPerSecond = [[5, 10]]\<rparr>)]
              (RollingSingles_init 3))) 1)) ! 0)"
  by (simp add: first_chunk_state second_chunk_state)

lemma ingest_sorted:
  "buckets_sorted s \<Longrightarrow>
   buckets_sorted (fold (\<lambda>(second, ts) singles. appendTimestamp singles second ts) events s)"
proof (induction events arbitrary: s)
  case Nil
  then show ?case by simp
next
  case (Cons e events)
  obtain second ts where e: "e = (second, ts)" by (cases e)
  from Cons.prems have "buckets_sorted (appendTimestamp s second ts)"
    by (rule appendTimestamp_sorted)
  from Cons.IH[OF this] show ?case by (simp add: e)
qed

text \<open>
  Claim C8, amended. \<open>appendTimestamp\<close> keeps every bucket of a \<open>Singles\<close> non-decreasing,
  so the buckets built by ingestion from an empty \<open>Singles\<close> are non-decreasing whatever the
  order of arrival of the events; \<open>appendChunk\<close> keeps every stored bucket non-decreasing
  when the chunk extends the stored buckets in time order (\<open>chunk_in_order\<close>).
\<close>

theorem C8_buckets_stay_sorted:
  "(buckets_sorted s \<longrightarrow> buckets_sorted (appendTimestamp s second ts)) \<and>
   buckets_sorted (fold (\<lambda>(second, ts) singles. appendTimestamp singles second ts) events
                     \<lparr>channel = ch, baseSecond = 0, eventsPerSecond = []\<rparr>) \<and>
   (rolling_sorted r \<and> distinct (map fst chunk) \<and> chunk_in_order r chunk \<longrightarrow>
      rolling_sorted (appendChunk chunk r))"
proof -
  have "buckets_sorted \<lparr>channel = ch, baseSecond = 0, eventsPerSecond = []\<rparr>"
    by (simp add: buckets_sorted_def)
  from ingest_sorted[OF this] appendTimestamp_sorted appendChunk_sorted show ?thesis by blast
qed

theorem C8_buckets_stay_sorted_witness:
  "buckets_sorted (appendTimestamp \<lparr>channel = 1, baseSecond = 0, eventsPerSecond = [[5, 10]]\<rparr> 0 7) \<and>
   rolling_sorted (appendChunk [(1, \<lparr>channel = 1, baseSecond = 0, eventsPerSecond = [[12, 15]]\<rparr>)]
      \<lparr>channels_m = [1 \<mapsto> \<lparr>channel = 1, baseSecond = 0, eventsPerSecond = [[5, 10]]\<rparr>],
        latestChunks_m = [1 \<mapsto> [[5, 10]]], windowSeconds_m = 3, latestSecond_m = 0\<rparr>)"
proof -
  let ?s = "\<lparr>channel = 1, baseSecond = 0, eventsPerSecond = [[5, 10]]\<rparr>"
  let ?r = "\<lparr>channels_m = [1 \<mapsto> ?s],
        latestChunks_m = [1 \<mapsto> [[5, 10]]], windowSeconds_m = 3, latestSecond_m = 0\<rparr>"
  let ?chunk = "[(1, \<lparr>channel = 1, baseSecond = 0, eventsPerSecond = [[12, 15]]\<rparr>)]"
  have h1: "buckets_sorted ?s" by (simp add: buckets_sorted_def)
  have h2: "rolling_sorted ?r" by (simp add: rolling_sorted_def buckets_sorted_def)
  have h3: "distinct (map fst ?chunk)" by simp
  have h4: "chunk_in_order ?r ?chunk"
    by (simp add: chunk_in_order_def channelSingles_def eventsForSecond_def)
  from C8_buckets_stay_sorted[of ?s 0 7 "[]" 1 ?r ?chunk] h1 h2 h3 h4 show ?thesis by blast
qed

end
